theory Spec2Isabelle
  imports Complex_Main
begin

section \<open>The Game of Hog: the optimal-strategy probability engine\<close>

text \<open>
  A shallow embedding of \<^verbatim>\<open>hog.py\<close>. Python's unbounded integers are \<^typ>\<open>int\<close>;
  \<^verbatim>\<open>%\<close> and \<^verbatim>\<open>//\<close> with a positive divisor are \<open>mod\<close> and \<open>div\<close> on \<^typ>\<open>int\<close>
  (both round towards minus infinity). A number of dice is a \<^typ>\<open>nat\<close>: the engine
  only produces roll counts from the loop \<^verbatim>\<open>0 .. MAX_DICE_ROLLS\<close>, and
  \<^verbatim>\<open>number_of_ways_to_score\<close> would not return on a negative count.

  Python's true division \<^verbatim>\<open>/\<close> and its arithmetic on \<^verbatim>\<open>float\<close> values are modelled twice.
  The functions named as in the source compute with exact rationals (\<^typ>\<open>rat\<close>): they give
  the mathematical value of each expression and are used for the statements about the
  structure of the algorithm. The functions with the suffix \<open>_float\<close> compute what CPython
  computes: every double is the rational it denotes, and each division, subtraction,
  multiplication and addition is the exact result rounded to the nearest double, ties to
  even (\<open>round_double\<close>). An \<^verbatim>\<open>int\<close> that meets a \<^verbatim>\<open>float\<close> is converted exactly (only 0 and 1
  occur), and the quotient of two \<^verbatim>\<open>int\<close> is correctly rounded. Overflow to infinity is not
  modelled; it cannot occur for quotients of at most 1 and sums of at most 60 of them.

  The divisor in \<^verbatim>\<open>probability_of_scoring\<close> is \<^verbatim>\<open>pow(s, n)\<close>, which is zero only for
  \<^verbatim>\<open>s = 0\<close> and \<^verbatim>\<open>n > 0\<close>, where Python raises \<^verbatim>\<open>ZeroDivisionError\<close>; the engine passes 4 or 6
  sides only, and every statement about that function below is about a number of sides
  that is not zero.

  The decorator \<^verbatim>\<open>memoized\<close> caches the results of functions without side effects, so a
  memoized function returns what the undecorated one returns; the cache is not modelled.
  Neither is the depth of Python's call stack, which \<^verbatim>\<open>best_num_dice_to_roll\<close> raises to
  \<^verbatim>\<open>MAX_RECURSION_DEPTH\<close> before it scans the roll counts.
\<close>

subsection \<open>Constants\<close>

definition MAX_DICE_ROLLS :: nat where
  "MAX_DICE_ROLLS = 10"

definition GOAL_SCORE :: int where
  "GOAL_SCORE = 100"

subsection \<open>Counting the ways to score\<close>

text \<open>
  The loop \<^verbatim>\<open>while dice <= s: ways += number_of_ways_to_score(k - dice, n - 1, s); dice += 1\<close>
  of \<^verbatim>\<open>number_of_ways_to_score\<close>; the recursive call is the parameter \<open>f\<close>.
\<close>

function ways_loop :: "(int \<Rightarrow> int) \<Rightarrow> int \<Rightarrow> int \<Rightarrow> int \<Rightarrow> int" where
  "ways_loop f s dice ways =
     (if dice \<le> s then ways_loop f s (dice + 1) (ways + f dice) else ways)"
  by pat_completeness auto
termination
  by (relation "measure (\<lambda>(f, s, dice, ways). nat (s + 1 - dice))") auto

declare ways_loop.simps [simp del]

fun number_of_ways_to_score :: "int \<Rightarrow> nat \<Rightarrow> int \<Rightarrow> int" where
  "number_of_ways_to_score k n s =
     (if n = 0 then (if k = 0 then 1 else 0)
      else ways_loop (\<lambda>dice. number_of_ways_to_score (k - dice) (n - 1) s) s 2 0)"

declare number_of_ways_to_score.simps [simp del]

subsection \<open>The probability of a turn score\<close>

definition probability_of_scoring :: "int \<Rightarrow> nat \<Rightarrow> int \<Rightarrow> rat" where
  "probability_of_scoring k n s =
     (if k = 1 then 1 - of_int ((s - 1) ^ n) / of_int (s ^ n)
      else of_int (number_of_ways_to_score k n s) / of_int (s ^ n))"

subsection \<open>The mutually recursive engine\<close>

text \<open>
  The scan of \<^verbatim>\<open>best_num_dice_to_roll\<close> over the roll counts; \<open>pw\<close> is the call
  \<^verbatim>\<open>probability_of_winning_by_rolling_n(score, opponent_score, num_of_dice)\<close>.
\<close>

function best_loop :: "(nat \<Rightarrow> rat) \<Rightarrow> nat \<Rightarrow> rat \<Rightarrow> nat \<Rightarrow> nat" where
  "best_loop pw num_of_dice best_probability best_num_of_dice =
     (if num_of_dice \<le> MAX_DICE_ROLLS then
        (let curr_probability = pw num_of_dice in
         if curr_probability > best_probability
         then best_loop pw (num_of_dice + 1) curr_probability num_of_dice
         else best_loop pw (num_of_dice + 1) best_probability best_num_of_dice)
      else best_num_of_dice)"
  by pat_completeness auto
termination
  by (relation "measure (\<lambda>(pw, num_of_dice, bp, bn). Suc MAX_DICE_ROLLS - num_of_dice)") auto

declare best_loop.simps [simp del]

text \<open>
  The loop of \<^verbatim>\<open>probability_of_winning_by_rolling_n\<close> over the possible turn scores;
  \<open>ps\<close> is the call of \<^verbatim>\<open>probability_of_scoring\<close> and \<open>pe\<close> the call of
  \<^verbatim>\<open>probability_of_winning_with_turn_end_scores\<close>, \<open>bound\<close> is \<^verbatim>\<open>sides * n\<close>.
\<close>

function win_loop :: "(int \<Rightarrow> rat) \<Rightarrow> (int \<Rightarrow> rat) \<Rightarrow> int \<Rightarrow> int \<Rightarrow> rat \<Rightarrow> rat" where
  "win_loop ps pe bound possible_score win_probability =
     (if possible_score \<le> bound
      then win_loop ps pe bound (possible_score + 1)
             (win_probability + ps possible_score * pe possible_score)
      else win_probability)"
  by pat_completeness auto
termination
  by (relation "measure (\<lambda>(ps, pe, bound, possible_score, w). nat (bound + 1 - possible_score))") auto

declare win_loop.simps [simp del]

lemma best_loop_cong [fundef_cong]:
  assumes "\<And>n. i \<le> n \<Longrightarrow> n \<le> MAX_DICE_ROLLS \<Longrightarrow> f n = g n"
    and "i = j" and "bp = bp'" and "bn = bn'"
  shows "best_loop f i bp bn = best_loop g j bp' bn'"
proof -
  have "best_loop f i bp bn = best_loop g i bp bn"
    using assms(1)
  proof (induction f i bp bn rule: best_loop.induct)
    case (1 pw num_of_dice best_probability best_num_of_dice)
    show ?case
    proof (cases "num_of_dice \<le> MAX_DICE_ROLLS")
      case True
      have eq: "pw num_of_dice = g num_of_dice"
        using "1.prems" True by simp
      have a: "best_loop pw (num_of_dice + 1) (pw num_of_dice) num_of_dice
               = best_loop g (num_of_dice + 1) (pw num_of_dice) num_of_dice"
        if "pw num_of_dice > best_probability"
        using "1.IH"(1) [OF True refl that] "1.prems" by simp
      have b: "best_loop pw (num_of_dice + 1) best_probability best_num_of_dice
               = best_loop g (num_of_dice + 1) best_probability best_num_of_dice"
        if "\<not> pw num_of_dice > best_probability"
        using "1.IH"(2) [OF True refl that] "1.prems" by simp
      show ?thesis
        using True a b eq
        by (simp add: best_loop.simps [of pw num_of_dice] best_loop.simps [of g num_of_dice] Let_def)
    next
      case False
      then show ?thesis
        by (simp add: best_loop.simps [of pw num_of_dice] best_loop.simps [of g num_of_dice])
    qed
  qed
  with assms(2-4) show ?thesis by simp
qed

lemma win_loop_cong [fundef_cong]:
  assumes "\<And>k. i \<le> k \<Longrightarrow> k \<le> b \<Longrightarrow> ps k = ps' k"
    and "\<And>k. i \<le> k \<Longrightarrow> k \<le> b \<Longrightarrow> pe k = pe' k"
    and "b = b'" and "i = i'" and "w = w'"
  shows "win_loop ps pe b i w = win_loop ps' pe' b' i' w'"
proof -
  have "win_loop ps pe b i w = win_loop ps' pe' b i w"
    using assms(1,2)
  proof (induction ps pe b i w rule: win_loop.induct)
    case (1 ps pe bound possible_score win_probability)
    show ?case
    proof (cases "possible_score \<le> bound")
      case True
      have "win_loop ps pe bound (possible_score + 1)
              (win_probability + ps possible_score * pe possible_score)
            = win_loop ps' pe' bound (possible_score + 1)
              (win_probability + ps possible_score * pe possible_score)"
        using "1.IH" [OF True] "1.prems" by simp
      moreover have "ps possible_score = ps' possible_score" "pe possible_score = pe' possible_score"
        using "1.prems" True by simp_all
      ultimately show ?thesis
        using True
        by (simp add: win_loop.simps [of ps pe bound possible_score]
              win_loop.simps [of ps' pe' bound possible_score])
    next
      case False
      then show ?thesis
        by (simp add: win_loop.simps [of ps pe bound possible_score]
              win_loop.simps [of ps' pe' bound possible_score])
    qed
  qed
  with assms(3-5) show ?thesis by simp
qed

text \<open>
  The measure of the recursion. A call of the engine is a value of a sum type: \<open>Inl\<close> for
  \<^verbatim>\<open>best_num_dice_to_roll\<close>, \<open>Inr (Inl _)\<close> for \<^verbatim>\<open>probability_of_winning_by_rolling_n\<close>
  and \<open>Inr (Inr _)\<close> for \<^verbatim>\<open>probability_of_winning_with_turn_end_scores\<close>. A turn adds at
  least one point to the sum of the two scores, which the swap leaves unchanged, and a
  state with a score at the goal makes no further call.
\<close>

definition turns_left :: "int \<Rightarrow> int \<Rightarrow> nat" where
  "turns_left score opponent_score = nat (2 * GOAL_SCORE - (score + opponent_score))"

fun engine_measure :: "(int \<times> int) + (int \<times> int \<times> nat) + (int \<times> int) \<Rightarrow> nat" where
  "engine_measure (Inl (score, opponent_score)) = 3 * turns_left score opponent_score + 2"
| "engine_measure (Inr (Inl (score, opponent_score, n))) = 3 * turns_left score opponent_score + 1"
| "engine_measure (Inr (Inr (score, opponent_score))) =
     (if score \<ge> GOAL_SCORE \<or> opponent_score \<ge> GOAL_SCORE then 0
      else 3 * turns_left score opponent_score + 3)"

lemma free_bacon_positive: "1 \<le> max (opponent_score mod 10) (opponent_score div 10) + (1::int)"
  by (simp add: le_max_iff_disj)

lemma turn_decreases:
  assumes "1 \<le> turn_score"
  shows "engine_measure (Inr (Inr (score + turn_score, opponent_score)))
         < engine_measure (Inr (Inl (score, opponent_score, n)))"
proof (cases "score + turn_score \<ge> GOAL_SCORE \<or> opponent_score \<ge> GOAL_SCORE")
  case True
  then show ?thesis by simp
next
  case False
  then have "turns_left (score + turn_score) opponent_score < turns_left score opponent_score"
    using assms by (simp add: turns_left_def GOAL_SCORE_def)
  with False show ?thesis by simp
qed

function best_num_dice_to_roll :: "int \<Rightarrow> int \<Rightarrow> nat"
  and probability_of_winning_by_rolling_n :: "int \<Rightarrow> int \<Rightarrow> nat \<Rightarrow> rat"
  and probability_of_winning_with_turn_end_scores :: "int \<Rightarrow> int \<Rightarrow> rat"
where
  "best_num_dice_to_roll score opponent_score =
     best_loop (\<lambda>num_of_dice. probability_of_winning_by_rolling_n score opponent_score num_of_dice)
       0 0 1"
| "probability_of_winning_by_rolling_n score opponent_score n =
     (let free_bacon_score = max (opponent_score mod 10) (opponent_score div 10) + 1;
          sides = (if (score + opponent_score) mod 7 = 0 then 4 else 6)
      in if n = 0
         then probability_of_winning_with_turn_end_scores (score + free_bacon_score) opponent_score
         else win_loop (\<lambda>possible_score. probability_of_scoring possible_score n sides)
                (\<lambda>possible_score.
                   probability_of_winning_with_turn_end_scores (score + possible_score) opponent_score)
                (sides * int n) 1 0)"
| "probability_of_winning_with_turn_end_scores score opponent_score =
     (let (score', opponent_score') =
            (if score * 2 = opponent_score \<or> opponent_score * 2 = score
             then (opponent_score, score) else (score, opponent_score))
      in if score' \<ge> GOAL_SCORE then 1
         else if opponent_score' \<ge> GOAL_SCORE then 0
         else (let opponent_num_rolls = best_num_dice_to_roll opponent_score' score';
                   probability_of_opponent_winning =
                     probability_of_winning_by_rolling_n opponent_score' score' opponent_num_rolls
               in 1 - probability_of_opponent_winning))"
  by pat_completeness auto
termination
proof (relation "measure engine_measure", goal_cases)
  case 1
  show ?case by simp
next
  case (2 score opponent_score n)
  show ?case by simp
next
  case (3 score opponent_score x xa)
  then show ?case
    using turn_decreases [OF free_bacon_positive] by simp
next
  case (4 score opponent_score x xa k)
  then show ?case
    using turn_decreases by simp
next
  case (5 score opponent_score x xa y)
  then show ?case
    by (auto simp: turns_left_def GOAL_SCORE_def split: if_splits)
next
  case (6 score opponent_score x xa y xb)
  then show ?case
    by (auto simp: turns_left_def GOAL_SCORE_def split: if_splits)
qed

declare best_num_dice_to_roll.simps [simp del]
declare probability_of_winning_by_rolling_n.simps [simp del]
declare probability_of_winning_with_turn_end_scores.simps [simp del]

text \<open>
  The call relation of the three functions, as the definition above generates it from
  their equations: \<open>engine_calls callee caller\<close> holds when the call \<open>caller\<close> makes the
  recursive call \<open>callee\<close>. A call returns when it is in the accessible part of this
  relation, that is when every chain of calls that starts from it is finite.
\<close>

abbreviation engine_calls where
  "engine_calls \<equiv> best_num_dice_to_roll_probability_of_winning_by_rolling_n_probability_of_winning_with_turn_end_scores_rel"

subsection \<open>Rounding to the nearest double\<close>

text \<open>
  The exponent of a positive rational \<open>x\<close> is the integer \<open>e\<close> with \<open>2 ^ e \<le> x < 2 ^ (e + 1)\<close>;
  it is found by halving a number that is at least 1 and by doubling one below 1.
\<close>

function log2_of_large :: "rat \<Rightarrow> int" where
  "log2_of_large x = (if x < 2 then 0 else log2_of_large (x / 2) + 1)"
  by pat_completeness auto
termination
proof (relation "measure (\<lambda>x. nat \<lfloor>x\<rfloor>)", goal_cases)
  case 1
  show ?case by simp
next
  case (2 x)
  then have "2 \<le> x" by simp
  then have "\<lfloor>x / 2\<rfloor> < \<lfloor>x\<rfloor>" "0 < \<lfloor>x\<rfloor>"
    by (simp_all add: floor_less_iff less_floor_iff le_floor_iff) linarith
  then show ?case by simp
qed

declare log2_of_large.simps [simp del]

function log2_of_small :: "rat \<Rightarrow> int" where
  "log2_of_small x = (if x \<le> 0 \<or> 1 \<le> x then 0 else log2_of_small (2 * x) - 1)"
  by pat_completeness auto
termination
proof (relation "measure (\<lambda>x. nat \<lceil>1 / x\<rceil>)", goal_cases)
  case 1
  show ?case by simp
next
  case (2 x)
  then have x: "0 < x" "x < 1" by simp_all
  define c where "c = \<lceil>1 / x\<rceil>"
  from x have "1 < 1 / x" by simp
  then have c: "2 \<le> c" by (simp add: c_def le_ceiling_iff)
  have "1 / x \<le> of_int c"
    by (simp add: c_def)
  then have "1 / (2 * x) \<le> of_int c / 2"
    by simp
  also have "\<dots> \<le> of_int (c - 1)"
  proof -
    have "(2::rat) \<le> of_int c" using c by (simp add: of_int_le_iff [symmetric] del: of_int_le_iff)
    then show ?thesis by simp
  qed
  finally have "\<lceil>1 / (2 * x)\<rceil> \<le> c - 1"
    by (simp only: ceiling_le_iff)
  with c have "nat \<lceil>1 / (2 * x)\<rceil> < nat c"
    by linarith
  then show ?case by (simp add: c_def)
qed

declare log2_of_small.simps [simp del]

definition floor_log2 :: "rat \<Rightarrow> int" where
  "floor_log2 x = (if 1 \<le> x then log2_of_large x else log2_of_small x)"

text \<open>
  Rounding to the nearest integer, a tie to the even one, and rounding to the nearest
  binary64 number: the doubles near \<open>x\<close> are the multiples of \<open>2 ^ (e - 52)\<close>, where \<open>e\<close> is the
  exponent of \<open>x\<close> and at least -1022 (below that the doubles are subnormal).
\<close>

definition round_half_even :: "rat \<Rightarrow> int" where
  "round_half_even q =
     (let n = \<lfloor>q\<rfloor>; r = q - of_int n
      in if r < 1 / 2 then n else if 1 / 2 < r then n + 1 else if even n then n else n + 1)"

definition double_min_exponent :: int where
  "double_min_exponent = - 1022"

definition round_double :: "rat \<Rightarrow> rat" where
  "round_double x =
     (if x = 0 then 0
      else (let e = max (floor_log2 \<bar>x\<bar>) double_min_exponent; ulp = 2 powi (e - 52)
            in of_int (round_half_even (x / ulp)) * ulp))"

subsection \<open>The engine in double precision\<close>

text \<open>
  The same functions with the arithmetic of \<^verbatim>\<open>float\<close>: \<^verbatim>\<open>1 - pow(s - 1, n) / pow(s, n)\<close> rounds the
  quotient and then the difference; \<^verbatim>\<open>win_probability += p * v\<close> rounds the product and then
  the sum; \<^verbatim>\<open>1 - probability_of_opponent_winning\<close> rounds the difference. The scan compares
  doubles, so it is \<open>best_loop\<close> unchanged.
\<close>

definition probability_of_scoring_float :: "int \<Rightarrow> nat \<Rightarrow> int \<Rightarrow> rat" where
  "probability_of_scoring_float k n s =
     (if k = 1 then round_double (1 - round_double (of_int ((s - 1) ^ n) / of_int (s ^ n)))
      else round_double (of_int (number_of_ways_to_score k n s) / of_int (s ^ n)))"

function win_loop_float :: "(int \<Rightarrow> rat) \<Rightarrow> (int \<Rightarrow> rat) \<Rightarrow> int \<Rightarrow> int \<Rightarrow> rat \<Rightarrow> rat" where
  "win_loop_float ps pe bound possible_score win_probability =
     (if possible_score \<le> bound
      then win_loop_float ps pe bound (possible_score + 1)
             (round_double (win_probability
                + round_double (ps possible_score * pe possible_score)))
      else win_probability)"
  by pat_completeness auto
termination
  by (relation "measure (\<lambda>(ps, pe, bound, possible_score, w). nat (bound + 1 - possible_score))") auto

declare win_loop_float.simps [simp del]

lemma win_loop_float_cong [fundef_cong]:
  assumes "\<And>k. i \<le> k \<Longrightarrow> k \<le> b \<Longrightarrow> ps k = ps' k"
    and "\<And>k. i \<le> k \<Longrightarrow> k \<le> b \<Longrightarrow> pe k = pe' k"
    and "b = b'" and "i = i'" and "w = w'"
  shows "win_loop_float ps pe b i w = win_loop_float ps' pe' b' i' w'"
proof -
  have "win_loop_float ps pe b i w = win_loop_float ps' pe' b i w"
    using assms(1,2)
  proof (induction ps pe b i w rule: win_loop_float.induct)
    case (1 ps pe bound possible_score win_probability)
    show ?case
    proof (cases "possible_score \<le> bound")
      case True
      let ?w = "round_double (win_probability
                  + round_double (ps possible_score * pe possible_score))"
      have "win_loop_float ps pe bound (possible_score + 1) ?w
            = win_loop_float ps' pe' bound (possible_score + 1) ?w"
        using "1.IH" [OF True] "1.prems" by simp
      moreover have "ps possible_score = ps' possible_score" "pe possible_score = pe' possible_score"
        using "1.prems" True by simp_all
      ultimately show ?thesis
        using True
        by (simp add: win_loop_float.simps [of ps pe bound possible_score]
              win_loop_float.simps [of ps' pe' bound possible_score])
    next
      case False
      then show ?thesis
        by (simp add: win_loop_float.simps [of ps pe bound possible_score]
              win_loop_float.simps [of ps' pe' bound possible_score])
    qed
  qed
  with assms(3-5) show ?thesis by simp
qed

function best_num_dice_to_roll_float :: "int \<Rightarrow> int \<Rightarrow> nat"
  and probability_of_winning_by_rolling_n_float :: "int \<Rightarrow> int \<Rightarrow> nat \<Rightarrow> rat"
  and probability_of_winning_with_turn_end_scores_float :: "int \<Rightarrow> int \<Rightarrow> rat"
where
  "best_num_dice_to_roll_float score opponent_score =
     best_loop
       (\<lambda>num_of_dice. probability_of_winning_by_rolling_n_float score opponent_score num_of_dice)
       0 0 1"
| "probability_of_winning_by_rolling_n_float score opponent_score n =
     (let free_bacon_score = max (opponent_score mod 10) (opponent_score div 10) + 1;
          sides = (if (score + opponent_score) mod 7 = 0 then 4 else 6)
      in if n = 0
         then probability_of_winning_with_turn_end_scores_float (score + free_bacon_score)
                opponent_score
         else win_loop_float (\<lambda>possible_score. probability_of_scoring_float possible_score n sides)
                (\<lambda>possible_score.
                   probability_of_winning_with_turn_end_scores_float (score + possible_score)
                     opponent_score)
                (sides * int n) 1 0)"
| "probability_of_winning_with_turn_end_scores_float score opponent_score =
     (let (score', opponent_score') =
            (if score * 2 = opponent_score \<or> opponent_score * 2 = score
             then (opponent_score, score) else (score, opponent_score))
      in if score' \<ge> GOAL_SCORE then 1
         else if opponent_score' \<ge> GOAL_SCORE then 0
         else (let opponent_num_rolls = best_num_dice_to_roll_float opponent_score' score';
                   probability_of_opponent_winning =
                     probability_of_winning_by_rolling_n_float opponent_score' score'
                       opponent_num_rolls
               in round_double (1 - probability_of_opponent_winning)))"
  by pat_completeness auto
termination
proof (relation "measure engine_measure", goal_cases)
  case 1
  show ?case by simp
next
  case (2 score opponent_score n)
  show ?case by simp
next
  case (3 score opponent_score x xa)
  then show ?case
    using turn_decreases [OF free_bacon_positive] by simp
next
  case (4 score opponent_score x xa k)
  then show ?case
    using turn_decreases by simp
next
  case (5 score opponent_score x xa y)
  then show ?case
    by (auto simp: turns_left_def GOAL_SCORE_def split: if_splits)
next
  case (6 score opponent_score x xa y xb)
  then show ?case
    by (auto simp: turns_left_def GOAL_SCORE_def split: if_splits)
qed

declare best_num_dice_to_roll_float.simps [simp del]
declare probability_of_winning_by_rolling_n_float.simps [simp del]
declare probability_of_winning_with_turn_end_scores_float.simps [simp del]

subsection \<open>Taking a turn\<close>

text \<open>
  The argument \<^verbatim>\<open>num_rolls\<close> is checked for its type, so it is a Python value that is an
  \<^verbatim>\<open>int\<close> or is of another type (\<^verbatim>\<open>float\<close>, \<^verbatim>\<open>bool\<close>, \<^verbatim>\<open>str\<close>, ...). A failed \<^verbatim>\<open>assert\<close>
  raises \<^verbatim>\<open>AssertionError\<close> with its message. The dice is a function of no arguments;
  it is modelled by the outcomes of its successive calls, \<open>dice i\<close> for call number \<open>i\<close>.
  The local variable \<^verbatim>\<open>sum\<close> of \<^verbatim>\<open>roll_dice\<close> is \<open>roll_sum\<close> here. The opponent's score and
  the outcomes of the dice are integers of any sign.
\<close>

datatype pyval = PyInt int | PyOther

datatype error = AssertionError string

type_synonym dice = "nat \<Rightarrow> int"

function roll_loop :: "dice \<Rightarrow> int \<Rightarrow> int \<Rightarrow> bool \<Rightarrow> int \<Rightarrow> bool \<times> int" where
  "roll_loop dice num_rolls i rolled_one roll_sum =
     (if i < num_rolls then
        (let roll_res = dice (nat i)
         in roll_loop dice num_rolls (i + 1) (if roll_res = 1 then True else rolled_one)
              (roll_sum + roll_res))
      else (rolled_one, roll_sum))"
  by pat_completeness auto
termination
  by (relation "measure (\<lambda>(dice, num_rolls, i, rolled_one, roll_sum). nat (num_rolls - i))") auto

declare roll_loop.simps [simp del]

definition roll_dice :: "pyval \<Rightarrow> dice \<Rightarrow> error + int" where
  "roll_dice num_rolls dice =
     (case num_rolls of
        PyOther \<Rightarrow> Inl (AssertionError ''num_rolls must be an integer.'')
      | PyInt n \<Rightarrow>
          if \<not> n > 0 then Inl (AssertionError ''Must roll at least once.'')
          else (let (rolled_one, roll_sum) = roll_loop dice n 0 False 0
                in Inr (if rolled_one then 1 else roll_sum)))"

definition take_turn :: "pyval \<Rightarrow> int \<Rightarrow> dice \<Rightarrow> error + int" where
  "take_turn num_rolls opponent_score dice =
     (case num_rolls of
        PyOther \<Rightarrow> Inl (AssertionError ''num_rolls must be an integer.'')
      | PyInt n \<Rightarrow>
          if \<not> n \<ge> 0 then Inl (AssertionError ''Cannot roll a negative number of dice.'')
          else if \<not> n \<le> 10 then Inl (AssertionError ''Cannot roll more than 10 dice.'')
          else if \<not> opponent_score < 100 then Inl (AssertionError ''The game should be over.'')
          else if n = 0 then Inr (max (opponent_score mod 10) (opponent_score div 10) + 1)
          else roll_dice (PyInt n) dice)"

text \<open>A dice that shows the same face at every call, as \<^verbatim>\<open>make_test_dice(c)\<close> in the doctests.\<close>

definition constant_dice :: "int \<Rightarrow> dice" where
  "constant_dice c i = c"

subsection \<open>The sequences of faces that the counting function counts\<close>

text \<open>
  The ordered sequences of \<open>n\<close> faces, each drawn from \<open>{2, ..., s}\<close>, whose sum is \<open>k\<close>:
  the set that \<^verbatim>\<open>number_of_ways_to_score(k, n, s)\<close> is specified to count.
\<close>

definition face_sequences :: "int \<Rightarrow> nat \<Rightarrow> int \<Rightarrow> int list set" where
  "face_sequences k n s = {faces. length faces = n \<and> set faces \<subseteq> {2..s} \<and> sum_list faces = k}"

section \<open>Properties\<close>

subsection \<open>The loops as sums\<close>

lemma ways_loop_sum: "ways_loop f s dice ways = ways + (\<Sum>d = dice..s. f d)"
proof (induction f s dice ways rule: ways_loop.induct)
  case (1 f s dice ways)
  show ?case
  proof (cases "dice \<le> s")
    case True
    have "{dice..s} = insert dice {dice + 1..s}" using True by auto
    then have "(\<Sum>d = dice..s. f d) = f dice + (\<Sum>d = dice + 1..s. f d)" by simp
    with True "1.IH" show ?thesis by (simp add: ways_loop.simps [of f s dice])
  next
    case False
    then show ?thesis by (simp add: ways_loop.simps [of f s dice])
  qed
qed

lemma ways_zero: "number_of_ways_to_score k 0 s = (if k = 0 then 1 else 0)"
  by (simp add: number_of_ways_to_score.simps [of k 0])

lemma ways_Suc:
  "number_of_ways_to_score k (Suc n) s = (\<Sum>d = 2..s. number_of_ways_to_score (k - d) n s)"
  by (simp add: number_of_ways_to_score.simps [of k "Suc n"] ways_loop_sum)

subsection \<open>Counting sequences of faces\<close>

lemma face_sequences_finite: "finite (face_sequences k n s)"
proof -
  have "face_sequences k n s \<subseteq> {faces. set faces \<subseteq> {2..s} \<and> length faces = n}"
    by (auto simp: face_sequences_def)
  moreover have "finite {faces. set faces \<subseteq> {2..s} \<and> length faces = n}"
    by (rule finite_lists_length_eq) simp
  ultimately show ?thesis by (rule finite_subset)
qed

lemma face_sequences_zero: "face_sequences k 0 s = (if k = 0 then {[]} else {})"
  by (auto simp: face_sequences_def)

lemma face_sequences_Suc:
  "face_sequences k (Suc n) s = (\<Union>d\<in>{2..s}. (#) d ` face_sequences (k - d) n s)"
proof (rule set_eqI)
  fix faces
  show "faces \<in> face_sequences k (Suc n) s
        \<longleftrightarrow> faces \<in> (\<Union>d\<in>{2..s}. (#) d ` face_sequences (k - d) n s)"
  proof (cases faces)
    case Nil
    then show ?thesis by (auto simp: face_sequences_def)
  next
    case (Cons d rest)
    have "faces \<in> face_sequences k (Suc n) s
          \<longleftrightarrow> d \<in> {2..s} \<and> rest \<in> face_sequences (k - d) n s"
      by (auto simp: face_sequences_def Cons)
    also have "\<dots> \<longleftrightarrow> faces \<in> (\<Union>d\<in>{2..s}. (#) d ` face_sequences (k - d) n s)"
      by (auto simp: Cons)
    finally show ?thesis .
  qed
qed

lemma ways_card: "number_of_ways_to_score k n s = int (card (face_sequences k n s))"
proof (induction n arbitrary: k)
  case 0
  show ?case by (simp add: ways_zero face_sequences_zero)
next
  case (Suc n)
  have disj: "\<forall>d\<in>{2..s}. \<forall>e\<in>{2..s}. d \<noteq> e \<longrightarrow>
      (#) d ` face_sequences (k - d) n s \<inter> (#) e ` face_sequences (k - e) n s = {}"
    by auto
  have fin: "\<forall>d\<in>{2..s}. finite ((#) d ` face_sequences (k - d) n s)"
    by (simp add: face_sequences_finite)
  have "card (face_sequences k (Suc n) s)
        = (\<Sum>d\<in>{2..s}. card ((#) d ` face_sequences (k - d) n s))"
    unfolding face_sequences_Suc
    by (rule card_UN_disjoint [OF _ fin disj]) simp
  also have "\<dots> = (\<Sum>d\<in>{2..s}. card (face_sequences (k - d) n s))"
    by (simp add: card_image)
  finally show ?case
    by (simp add: ways_Suc Suc.IH)
qed

lemma ways_support:
  "number_of_ways_to_score k n s \<noteq> 0 \<Longrightarrow> 2 * int n \<le> k \<and> k \<le> s * int n"
proof (induction n arbitrary: k)
  case 0
  then show ?case by (simp add: ways_zero split: if_splits)
next
  case (Suc n)
  from Suc.prems obtain d where d: "d \<in> {2..s}" "number_of_ways_to_score (k - d) n s \<noteq> 0"
    unfolding ways_Suc by (meson sum.neutral)
  from Suc.IH [OF d(2)] d(1) show ?case
    by (auto simp: algebra_simps)
qed

lemma ways_negative: "k < 0 \<Longrightarrow> number_of_ways_to_score k n s = 0"
  using ways_support [of k n s] by fastforce

lemma ways_total:
  "1 \<le> s \<Longrightarrow> lo \<le> 2 * int n \<Longrightarrow> s * int n \<le> hi
   \<Longrightarrow> (\<Sum>k = lo..hi. number_of_ways_to_score k n s) = (s - 1) ^ n"
proof (induction n arbitrary: lo hi)
  case 0
  then have "(\<Sum>k = lo..hi. number_of_ways_to_score k 0 s) = (\<Sum>k\<in>{lo..hi}. if k = 0 then 1 else 0)"
    by (simp add: ways_zero)
  also have "\<dots> = 1" using 0 by (simp add: sum.delta)
  finally show ?case by simp
next
  case (Suc n)
  have inner: "(\<Sum>k = lo..hi. number_of_ways_to_score (k - d) n s) = (s - 1) ^ n"
    if "d \<in> {2..s}" for d
  proof -
    have "(\<Sum>k = lo..hi. number_of_ways_to_score (k - d) n s)
          = (\<Sum>j = lo - d..hi - d. number_of_ways_to_score j n s)"
      by (rule sum.reindex_bij_witness [of _ "\<lambda>j. j + d" "\<lambda>k. k - d"]) auto
    also have "\<dots> = (s - 1) ^ n"
      using that Suc.prems by (intro Suc.IH) (auto simp: algebra_simps)
    finally show ?thesis .
  qed
  have "(\<Sum>k = lo..hi. number_of_ways_to_score k (Suc n) s)
        = (\<Sum>k = lo..hi. \<Sum>d = 2..s. number_of_ways_to_score (k - d) n s)"
    by (simp add: ways_Suc)
  also have "\<dots> = (\<Sum>d = 2..s. \<Sum>k = lo..hi. number_of_ways_to_score (k - d) n s)"
    by (rule sum.swap)
  also have "\<dots> = (\<Sum>d = 2..s. (s - 1) ^ n)"
    by (rule sum.cong) (simp_all add: inner)
  also have "\<dots> = (s - 1) * (s - 1) ^ n"
    using Suc.prems(1) by simp
  finally show ?case by simp
qed

lemma win_loop_sum:
  "win_loop ps pe bound possible_score w = w + (\<Sum>k = possible_score..bound. ps k * pe k)"
proof (induction ps pe bound possible_score w rule: win_loop.induct)
  case (1 ps pe bound possible_score w)
  show ?case
  proof (cases "possible_score \<le> bound")
    case True
    have "{possible_score..bound} = insert possible_score {possible_score + 1..bound}"
      using True by auto
    then have "(\<Sum>k = possible_score..bound. ps k * pe k)
        = ps possible_score * pe possible_score + (\<Sum>k = possible_score + 1..bound. ps k * pe k)"
      by simp
    with True "1.IH" show ?thesis by (simp add: win_loop.simps [of ps pe bound possible_score])
  next
    case False
    then show ?thesis by (simp add: win_loop.simps [of ps pe bound possible_score])
  qed
qed

subsection \<open>The outcome probabilities add up to one\<close>

lemma scoring_total:
  assumes "1 \<le> n" "2 \<le> s"
  shows "probability_of_scoring 1 n s + (\<Sum>k = 2..s * int n. probability_of_scoring k n s) = 1"
proof -
  have "(\<Sum>k = 2..s * int n. probability_of_scoring k n s)
        = (\<Sum>k = 2..s * int n. of_int (number_of_ways_to_score k n s) / of_int (s ^ n))"
    by (rule sum.cong) (auto simp: probability_of_scoring_def)
  also have "\<dots> = of_int (\<Sum>k = 2..s * int n. number_of_ways_to_score k n s) / of_int (s ^ n)"
    by (simp add: sum_divide_distrib)
  also have "(\<Sum>k = 2..s * int n. number_of_ways_to_score k n s) = (s - 1) ^ n"
    using assms by (intro ways_total) auto
  finally have rest: "(\<Sum>k = 2..s * int n. probability_of_scoring k n s)
      = of_int ((s - 1) ^ n) / of_int (s ^ n)" .
  show ?thesis
    unfolding rest by (simp add: probability_of_scoring_def)
qed

lemma scoring_total_from_one:
  assumes "1 \<le> n" "2 \<le> s"
  shows "(\<Sum>k = 1..s * int n. probability_of_scoring k n s) = 1"
proof -
  have "1 * 1 \<le> s * int n"
    by (rule mult_mono) (use assms in auto)
  then have "{1..s * int n} = insert 1 {2..s * int n}"
    by auto
  then show ?thesis
    using scoring_total [OF assms] by simp
qed

subsection \<open>The scan for the best roll count\<close>

text \<open>
  What the scan returns from roll count \<open>i\<close> on, with \<open>bp\<close> the best probability so far
  and \<open>bn\<close> the roll count that has it: \<open>bn\<close> when no later count is strictly better, and
  otherwise the first of the later counts with the greatest probability.
\<close>

lemma best_loop_spec:
  "(if \<forall>n\<in>{i..MAX_DICE_ROLLS}. pw n \<le> bp then best_loop pw i bp bn = bn
    else best_loop pw i bp bn \<in> {i..MAX_DICE_ROLLS}
       \<and> bp < pw (best_loop pw i bp bn)
       \<and> (\<forall>n\<in>{i..MAX_DICE_ROLLS}. pw n \<le> pw (best_loop pw i bp bn))
       \<and> (\<forall>n\<in>{i..<best_loop pw i bp bn}. pw n < pw (best_loop pw i bp bn)))"
proof (induction pw i bp bn rule: best_loop.induct)
  case (1 pw i bp bn)
  show ?case
  proof (cases "i \<le> MAX_DICE_ROLLS")
    case False
    then show ?thesis
      by (simp add: best_loop.simps [of pw i])
  next
    case True
    then have range: "{i..MAX_DICE_ROLLS} = insert i {Suc i..MAX_DICE_ROLLS}"
      by auto
    show ?thesis
    proof (cases "bp < pw i")
      case better: True
      define r where "r = best_loop pw (i + 1) (pw i) i"
      have unfold: "best_loop pw i bp bn = r"
        using True better by (simp add: best_loop.simps [of pw i] r_def)
      have IH: "if \<forall>n\<in>{Suc i..MAX_DICE_ROLLS}. pw n \<le> pw i then r = i
          else r \<in> {Suc i..MAX_DICE_ROLLS} \<and> pw i < pw r
             \<and> (\<forall>n\<in>{Suc i..MAX_DICE_ROLLS}. pw n \<le> pw r)
             \<and> (\<forall>n\<in>{Suc i..<r}. pw n < pw r)"
        using "1.IH"(1) [OF True refl better] unfolding r_def Suc_eq_plus1 .
      show ?thesis
      proof (cases "\<forall>n\<in>{Suc i..MAX_DICE_ROLLS}. pw n \<le> pw i")
        case all: True
        with IH have "r = i" by simp
        with all better True show ?thesis
          unfolding unfold range by auto
      next
        case some: False
        with IH have r: "r \<in> {Suc i..MAX_DICE_ROLLS}" "pw i < pw r"
          "\<forall>n\<in>{Suc i..MAX_DICE_ROLLS}. pw n \<le> pw r" "\<forall>n\<in>{Suc i..<r}. pw n < pw r"
          by simp_all
        from r(1) have below: "{i..<r} = insert i {Suc i..<r}" by auto
        from r better have "\<not> (\<forall>n\<in>{i..MAX_DICE_ROLLS}. pw n \<le> bp)"
          by (metis atLeastAtMost_iff le_SucI not_le order.strict_trans Suc_leD)
        with r better show ?thesis
          unfolding unfold below by (auto simp: range)
      qed
    next
      case worse: False
      define r where "r = best_loop pw (i + 1) bp bn"
      have unfold: "best_loop pw i bp bn = r"
        using True worse by (simp add: best_loop.simps [of pw i] r_def)
      have IH: "if \<forall>n\<in>{Suc i..MAX_DICE_ROLLS}. pw n \<le> bp then r = bn
          else r \<in> {Suc i..MAX_DICE_ROLLS} \<and> bp < pw r
             \<and> (\<forall>n\<in>{Suc i..MAX_DICE_ROLLS}. pw n \<le> pw r)
             \<and> (\<forall>n\<in>{Suc i..<r}. pw n < pw r)"
        using "1.IH"(2) [OF True refl worse] unfolding r_def Suc_eq_plus1 .
      show ?thesis
      proof (cases "\<forall>n\<in>{Suc i..MAX_DICE_ROLLS}. pw n \<le> bp")
        case all: True
        with IH have "r = bn" by simp
        with all worse show ?thesis
          unfolding unfold range by auto
      next
        case some: False
        with IH have r: "r \<in> {Suc i..MAX_DICE_ROLLS}" "bp < pw r"
          "\<forall>n\<in>{Suc i..MAX_DICE_ROLLS}. pw n \<le> pw r" "\<forall>n\<in>{Suc i..<r}. pw n < pw r"
          by simp_all
        from r(1) have below: "{i..<r} = insert i {Suc i..<r}" by auto
        from some have "\<not> (\<forall>n\<in>{i..MAX_DICE_ROLLS}. pw n \<le> bp)"
          unfolding range by simp
        with r worse show ?thesis
          unfolding unfold below by (auto simp: range)
      qed
    qed
  qed
qed

subsection \<open>States that are decided\<close>

text \<open>
  A player at 99 points whose opponent is below 50 wins with every roll count: every turn
  score is at least 1 and no swap can follow. So the roll count chosen there is 0, a player
  below 50 who ends the turn against 99 points has lost, and from (-20, 99) no roll count
  has a positive probability of winning.
\<close>

lemma rolling_zero:
  "probability_of_winning_by_rolling_n score opponent_score 0 =
     probability_of_winning_with_turn_end_scores
       (score + (max (opponent_score mod 10) (opponent_score div 10) + 1)) opponent_score"
  by (simp add: probability_of_winning_by_rolling_n.simps [of score opponent_score 0] Let_def)

lemma rolling_dice:
  assumes "n \<noteq> 0" and "sides = (if (score + opponent_score) mod 7 = 0 then 4 else 6)"
  shows "probability_of_winning_by_rolling_n score opponent_score n =
     (\<Sum>k = 1..sides * int n. probability_of_scoring k n sides
        * probability_of_winning_with_turn_end_scores (score + k) opponent_score)"
  using assms
  by (simp add: probability_of_winning_by_rolling_n.simps [of score opponent_score n] Let_def
        win_loop_sum)

lemma state_value_won:
  assumes "GOAL_SCORE \<le> score" "2 * opponent_score < score"
  shows "probability_of_winning_with_turn_end_scores score opponent_score = 1"
proof -
  have "\<not> (score * 2 = opponent_score \<or> opponent_score * 2 = score)"
    using assms by (auto simp: GOAL_SCORE_def)
  then show ?thesis
    using assms(1) by (simp add: probability_of_winning_with_turn_end_scores.simps [of score])
qed

lemma winning_from_99:
  assumes "2 * opponent_score < GOAL_SCORE"
  shows "probability_of_winning_by_rolling_n 99 opponent_score n = 1"
proof -
  have won: "probability_of_winning_with_turn_end_scores (99 + turn_score) opponent_score = 1"
    if "1 \<le> turn_score" for turn_score
    using that assms by (intro state_value_won) (auto simp: GOAL_SCORE_def)
  show ?thesis
  proof (cases "n = 0")
    case True
    then show ?thesis
      using won [OF free_bacon_positive [of opponent_score]]
      by (simp add: rolling_zero)
  next
    case False
    define sides :: int where "sides = (if (99 + opponent_score) mod 7 = 0 then 4 else 6)"
    have "probability_of_winning_by_rolling_n 99 opponent_score n
          = (\<Sum>k = 1..sides * int n. probability_of_scoring k n sides
               * probability_of_winning_with_turn_end_scores (99 + k) opponent_score)"
      using False by (rule rolling_dice) (simp add: sides_def)
    also have "\<dots> = (\<Sum>k = 1..sides * int n. probability_of_scoring k n sides)"
      by (rule sum.cong) (simp_all add: won)
    also have "\<dots> = 1"
      using False by (intro scoring_total_from_one) (auto simp: sides_def)
    finally show ?thesis .
  qed
qed

lemma best_from_99:
  assumes "2 * opponent_score < GOAL_SCORE"
  shows "best_num_dice_to_roll 99 opponent_score = 0"
proof -
  let ?pw = "probability_of_winning_by_rolling_n 99 opponent_score"
  have "0 \<in> {0..MAX_DICE_ROLLS}" and "\<not> ?pw 0 \<le> 0"
    by (simp_all add: winning_from_99 [OF assms])
  then have "\<not> (\<forall>n\<in>{0..MAX_DICE_ROLLS}. ?pw n \<le> 0)"
    by blast
  with best_loop_spec [of 0 ?pw 0 1]
  have "\<forall>n\<in>{0..<best_loop ?pw 0 0 1}. ?pw n < ?pw (best_loop ?pw 0 0 1)"
    by (simp split: if_splits)
  then have "best_loop ?pw 0 0 1 = 0"
    by (auto simp: winning_from_99 [OF assms])
  then show ?thesis
    by (simp add: best_num_dice_to_roll.simps [of 99 opponent_score])
qed

lemma state_value_lost_against_99:
  assumes "2 * score < GOAL_SCORE"
  shows "probability_of_winning_with_turn_end_scores score 99 = 0"
proof -
  have "\<not> (score * 2 = 99 \<or> 99 * 2 = score)"
    using assms by (auto simp: GOAL_SCORE_def)
  then show ?thesis
    using assms
    by (simp add: probability_of_winning_with_turn_end_scores.simps [of score 99] GOAL_SCORE_def
          winning_from_99 best_from_99)
qed

lemma no_chance_against_99:
  assumes "n \<le> 10"
  shows "probability_of_winning_by_rolling_n (- 20) 99 n = 0"
proof (cases "n = 0")
  case True
  then show ?thesis
    by (simp add: rolling_zero state_value_lost_against_99 GOAL_SCORE_def)
next
  case False
  have "probability_of_winning_by_rolling_n (- 20) 99 n
        = (\<Sum>k = 1..6 * int n. probability_of_scoring k n 6
             * probability_of_winning_with_turn_end_scores (- 20 + k) 99)"
    using False by (rule rolling_dice) simp
  also have "\<dots> = (\<Sum>k = 1..6 * int n. 0)"
  proof (rule sum.cong)
    fix k assume "k \<in> {1..6 * int n}"
    then have "2 * (- 20 + k) < GOAL_SCORE"
      using assms by (simp add: GOAL_SCORE_def)
    then show "probability_of_scoring k n 6
        * probability_of_winning_with_turn_end_scores (- 20 + k) 99 = 0"
      by (simp add: state_value_lost_against_99)
  qed simp
  finally show ?thesis by simp
qed

subsection \<open>Rolling the dice\<close>

text \<open>With a positive number of rolls both assertions of \<^verbatim>\<open>roll_dice\<close> hold and it returns.\<close>

lemma roll_dice_returns:
  assumes "0 < n"
  shows "\<exists>turn_score. roll_dice (PyInt n) dice = Inr turn_score"
  using assms by (simp add: roll_dice_def split: prod.split)

subsection \<open>The calls of the engine\<close>

text \<open>
  Every recursive call decreases the measure, so the call relation is well-founded. A call
  from the turn value to the state value adds at least one point to the score of the
  player who moves, and the state value makes a call only below the goal.
\<close>

lemma engine_call_decreases:
  assumes "engine_calls callee caller"
  shows "engine_measure callee < engine_measure caller"
  using assms
proof (cases rule: best_num_dice_to_roll_probability_of_winning_by_rolling_n_probability_of_winning_with_turn_end_scores_rel.cases)
  case (1 score opponent_score n)
  then show ?thesis by simp
next
  case (2 score opponent_score n x xa)
  then show ?thesis
    using turn_decreases [OF free_bacon_positive] by simp
next
  case (3 score opponent_score n x xa k)
  then show ?thesis
    using turn_decreases by simp
next
  case (4 score opponent_score x xa y)
  then show ?thesis
    by (auto simp: turns_left_def GOAL_SCORE_def split: if_splits)
next
  case (5 score opponent_score x xa y xb)
  then show ?thesis
    by (auto simp: turns_left_def GOAL_SCORE_def split: if_splits)
qed

lemma engine_calls_wellfounded: "wfp engine_calls"
  by (rule wfp_if_convertible_to_nat [of _ engine_measure]) (rule engine_call_decreases)

lemma engine_call_accessible: "Wellfounded.accp engine_calls call"
  using engine_calls_wellfounded by (simp add: wfp_iff_accp)

lemma turn_call_gains:
  assumes "engine_calls (Inr (Inr (score', opponent_score'))) (Inr (Inl (score, opponent_score, n)))"
  shows "score + 1 \<le> score' \<and> opponent_score' = opponent_score"
  using assms free_bacon_positive [of opponent_score]
  by (cases rule: best_num_dice_to_roll_probability_of_winning_by_rolling_n_probability_of_winning_with_turn_end_scores_rel.cases) auto

lemma state_call_below_goal:
  assumes "engine_calls callee (Inr (Inr (score, opponent_score)))"
  shows "score < GOAL_SCORE \<and> opponent_score < GOAL_SCORE"
  using assms
  by (cases rule: best_num_dice_to_roll_probability_of_winning_by_rolling_n_probability_of_winning_with_turn_end_scores_rel.cases) (auto split: if_splits)

lemma a_turn_call: "engine_calls (Inr (Inr (0 + 3, 0))) (Inr (Inl (0, 0, 1)))"
  by (rule best_num_dice_to_roll_probability_of_winning_by_rolling_n_probability_of_winning_with_turn_end_scores_rel.intros(3)
        [where score = 0 and opponent_score = 0 and n = 1 and k = 3, OF refl refl])
     simp_all

lemma a_state_call: "engine_calls (Inl (0, 3)) (Inr (Inr (3, 0)))"
  by (rule best_num_dice_to_roll_probability_of_winning_by_rolling_n_probability_of_winning_with_turn_end_scores_rel.intros(4)
        [where score = 3 and opponent_score = 0 and xa = 3 and y = 0, OF refl])
     (simp_all add: GOAL_SCORE_def)

subsection \<open>The error of rounding\<close>

text \<open>
  The exponent found is the right one; rounding moves a number by at most half a unit in
  the last place, hence by at most \<open>2 ^ -53\<close> of its size (of the smallest normal number for
  a subnormal one), and never by more than its size.
\<close>

lemma log2_of_large_bounds:
  assumes "1 \<le> x"
  shows "2 powi (log2_of_large x) \<le> x \<and> x < 2 powi (log2_of_large x + 1)"
  using assms
proof (induction x rule: log2_of_large.induct)
  case (1 x)
  show ?case
  proof (cases "x < 2")
    case True
    with "1.prems" show ?thesis
      by (simp add: log2_of_large.simps [of x])
  next
    case False
    then have "1 \<le> x / 2" by simp
    from "1.IH" [OF False this]
    have "2 powi (log2_of_large (x / 2)) \<le> x / 2" "x / 2 < 2 powi (log2_of_large (x / 2) + 1)"
      by simp_all
    then have "2 powi (log2_of_large (x / 2) + 1) \<le> x"
      "x < 2 powi (log2_of_large (x / 2) + 1 + 1)"
      by (simp_all add: power_int_add field_simps)
    with False show ?thesis
      by (simp add: log2_of_large.simps [of x])
  qed
qed

lemma log2_of_small_bounds:
  assumes "0 < x" "x < 1"
  shows "2 powi (log2_of_small x) \<le> x \<and> x < 2 powi (log2_of_small x + 1)"
  using assms
proof (induction x rule: log2_of_small.induct)
  case (1 x)
  have unfold: "log2_of_small x = log2_of_small (2 * x) - 1"
    using "1.prems" by (simp add: log2_of_small.simps [of x])
  show ?case
  proof (cases "2 * x < 1")
    case True
    have "\<not> (x \<le> 0 \<or> 1 \<le> x)" using "1.prems" by simp
    from "1.IH" [OF this] True "1.prems"
    have "2 powi (log2_of_small (2 * x)) \<le> 2 * x" "2 * x < 2 powi (log2_of_small (2 * x) + 1)"
      by simp_all
    then show ?thesis
      unfolding unfold by (simp_all add: power_int_diff power_int_add field_simps)
  next
    case False
    then have "log2_of_small (2 * x) = 0"
      by (simp add: log2_of_small.simps [of "2 * x"])
    with False "1.prems" show ?thesis
      unfolding unfold by (simp add: power_int_minus field_simps)
  qed
qed

lemma floor_log2_bounds:
  assumes "0 < x"
  shows "2 powi (floor_log2 x) \<le> x" and "x < 2 powi (floor_log2 x + 1)"
  using assms log2_of_large_bounds [of x] log2_of_small_bounds [of x]
  by (auto simp: floor_log2_def not_le)

lemma round_half_even_error: "\<bar>of_int (round_half_even q) - q\<bar> \<le> 1 / 2"
proof -
  have "of_int \<lfloor>q\<rfloor> \<le> q" "q < of_int \<lfloor>q\<rfloor> + 1"
    by linarith+
  then show ?thesis
    by (auto simp: round_half_even_def Let_def abs_le_iff not_less)
qed

lemma round_half_even_zero:
  assumes "\<bar>q\<bar> < 1 / 2"
  shows "round_half_even q = 0"
proof (cases "0 \<le> q")
  case True
  with assms have "\<lfloor>q\<rfloor> = 0" by (simp add: floor_eq_iff)
  with assms True show ?thesis by (simp add: round_half_even_def)
next
  case False
  with assms have f: "\<lfloor>q\<rfloor> = - 1" by (simp add: floor_eq_iff)
  with assms False show ?thesis by (simp add: round_half_even_def)
qed

definition double_ulp :: "rat \<Rightarrow> rat" where
  "double_ulp x = 2 powi (max (floor_log2 \<bar>x\<bar>) double_min_exponent - 52)"

lemma round_double_unfold:
  "x \<noteq> 0 \<Longrightarrow> round_double x = of_int (round_half_even (x / double_ulp x)) * double_ulp x"
  by (simp add: round_double_def double_ulp_def Let_def)

lemma double_ulp_positive: "0 < double_ulp x"
  by (simp add: double_ulp_def)

lemma double_ulp_bound:
  assumes "x \<noteq> 0"
  shows "double_ulp x \<le> max \<bar>x\<bar> (2 powi double_min_exponent) / 2 ^ 52"
proof -
  have "2 powi (max (floor_log2 \<bar>x\<bar>) double_min_exponent) \<le> max \<bar>x\<bar> (2 powi double_min_exponent)"
    using floor_log2_bounds(1) [of "\<bar>x\<bar>"] assms
    by (cases "floor_log2 \<bar>x\<bar> \<le> double_min_exponent") (auto simp: max_def)
  then show ?thesis
    by (simp add: double_ulp_def power_int_diff field_simps)
qed

lemma round_double_grid_error: "\<bar>round_double x - x\<bar> \<le> double_ulp x / 2"
proof (cases "x = 0")
  case True
  then show ?thesis using double_ulp_positive [of x] by (simp add: round_double_def)
next
  case False
  let ?u = "double_ulp x"
  have u: "0 < ?u" by (rule double_ulp_positive)
  have "round_double x - x = (of_int (round_half_even (x / ?u)) - x / ?u) * ?u"
    using u False by (simp add: round_double_unfold field_simps)
  then have "\<bar>round_double x - x\<bar> = \<bar>of_int (round_half_even (x / ?u)) - x / ?u\<bar> * ?u"
    using u by (simp add: abs_mult)
  also have "\<dots> \<le> 1 / 2 * ?u"
    using round_half_even_error [of "x / ?u"] u by (intro mult_right_mono) simp_all
  finally show ?thesis by simp
qed

lemma round_double_error:
  "\<bar>round_double x - x\<bar> \<le> max \<bar>x\<bar> (2 powi double_min_exponent) / 2 ^ 53"
proof (cases "x = 0")
  case True
  then show ?thesis by (simp add: round_double_def)
next
  case False
  from round_double_grid_error [of x] double_ulp_bound [OF False]
  show ?thesis by simp
qed

lemma round_double_within:
  "\<bar>round_double x - x\<bar> \<le> \<bar>x\<bar>"
proof (cases "x = 0")
  case True
  then show ?thesis by (simp add: round_double_def)
next
  case False
  show ?thesis
  proof (cases "2 powi double_min_exponent \<le> \<bar>x\<bar>")
    case True
    then have "max \<bar>x\<bar> (2 powi double_min_exponent) = \<bar>x\<bar>"
      by (rule max_absorb1)
    with round_double_error [of x] have "\<bar>round_double x - x\<bar> \<le> \<bar>x\<bar> / 2 ^ 53"
      by simp
    also have "\<dots> \<le> \<bar>x\<bar>"
      by (simp add: field_simps)
    finally show ?thesis .
  next
    case small: False
    have "floor_log2 \<bar>x\<bar> < double_min_exponent"
    proof (rule ccontr)
      assume "\<not> floor_log2 \<bar>x\<bar> < double_min_exponent"
      then have "2 powi double_min_exponent \<le> (2::rat) powi (floor_log2 \<bar>x\<bar>)"
        by (intro power_int_increasing) simp_all
      with floor_log2_bounds(1) [of "\<bar>x\<bar>"] False small show False by simp
    qed
    show ?thesis
    proof (cases "\<bar>x / double_ulp x\<bar> < 1 / 2")
      case True
      then have "round_double x = 0"
        using False by (simp add: round_double_unfold round_half_even_zero)
      then show ?thesis by simp
    next
      case False
      then have "double_ulp x / 2 \<le> \<bar>x\<bar>"
        using double_ulp_positive [of x] by (simp add: abs_divide field_simps not_less)
      with round_double_grid_error [of x] show ?thesis by simp
    qed
  qed
qed

lemma round_double_error_below:
  assumes "\<bar>x\<bar> \<le> 2 powi e" and "double_min_exponent \<le> e"
  shows "\<bar>round_double x - x\<bar> \<le> 2 powi e / 2 ^ 53"
proof -
  have "(2::rat) powi double_min_exponent \<le> 2 powi e"
    using assms(2) by (intro power_int_increasing) simp_all
  with assms(1) have m: "max \<bar>x\<bar> (2 powi double_min_exponent) \<le> 2 powi e"
    by simp
  have "\<bar>round_double x - x\<bar> \<le> max \<bar>x\<bar> (2 powi double_min_exponent) / 2 ^ 53"
    by (rule round_double_error)
  also have "\<dots> \<le> 2 powi e / 2 ^ 53"
    using m by (intro divide_right_mono) simp_all
  finally show ?thesis .
qed

lemma round_double_error_unit:
  assumes "\<bar>x\<bar> \<le> 1"
  shows "\<bar>round_double x - x\<bar> \<le> 1 / 2 ^ 53"
  using round_double_error_below [of x 0] assms by (simp add: double_min_exponent_def)

lemma round_double_error_two:
  assumes "\<bar>x\<bar> \<le> 2"
  shows "\<bar>round_double x - x\<bar> \<le> 1 / 2 ^ 52"
  using round_double_error_below [of x 1] assms by (simp add: double_min_exponent_def)

lemma unit_ratio:
  fixes a b :: int
  assumes "0 \<le> a" "a \<le> b" "0 < b"
  shows "\<bar>(of_int a :: rat) / of_int b\<bar> \<le> 1"
  using assms by (simp add: divide_le_eq_1)

lemma ways_nonnegative: "0 \<le> number_of_ways_to_score k n s"
  by (simp add: ways_card)

lemma ways_at_most:
  assumes "1 \<le> s"
  shows "number_of_ways_to_score k n s \<le> (s - 1) ^ n"
proof (cases "2 * int n \<le> k \<and> k \<le> s * int n")
  case True
  have "number_of_ways_to_score k n s
        \<le> (\<Sum>j = 2 * int n..s * int n. number_of_ways_to_score j n s)"
    using True by (intro member_le_sum) (simp_all add: ways_nonnegative)
  also have "\<dots> = (s - 1) ^ n"
    using assms by (intro ways_total) simp_all
  finally show ?thesis .
next
  case False
  then have "number_of_ways_to_score k n s = 0"
    using ways_support [of k n s] by blast
  then show ?thesis using assms by simp
qed

lemma scoring_float_error:
  assumes "2 \<le> s" "k \<noteq> 1"
  shows "\<bar>probability_of_scoring_float k n s - probability_of_scoring k n s\<bar> \<le> 1 / 2 ^ 53"
proof -
  have "number_of_ways_to_score k n s \<le> (s - 1) ^ n"
    using assms by (intro ways_at_most) simp
  also have "\<dots> \<le> s ^ n"
    using assms by (intro power_mono) simp_all
  finally have "\<bar>(of_int (number_of_ways_to_score k n s) :: rat) / of_int (s ^ n)\<bar> \<le> 1"
    using assms by (intro unit_ratio) (simp_all add: ways_nonnegative)
  then have "\<bar>round_double (of_int (number_of_ways_to_score k n s) / of_int (s ^ n))
      - of_int (number_of_ways_to_score k n s) / of_int (s ^ n)\<bar> \<le> 1 / 2 ^ 53"
    by (rule round_double_error_unit)
  with assms(2) show ?thesis
    by (simp add: probability_of_scoring_float_def probability_of_scoring_def)
qed

lemma pig_out_float_error:
  assumes "2 \<le> s"
  shows "\<bar>probability_of_scoring_float 1 n s - probability_of_scoring 1 n s\<bar> \<le> 3 / 2 ^ 53"
proof -
  define q :: rat where "q = of_int ((s - 1) ^ n) / of_int (s ^ n)"
  have "(s - 1) ^ n \<le> s ^ n"
    using assms by (intro power_mono) simp_all
  then have q: "\<bar>q\<bar> \<le> 1"
    unfolding q_def using assms by (intro unit_ratio) simp_all
  define u :: rat where "u = 1 / 2 ^ 53"
  have u: "0 < u" "u \<le> 1" "2 * u = 1 / 2 ^ 52"
    by (simp_all add: u_def)
  from q have e1: "\<bar>round_double q - q\<bar> \<le> u"
    unfolding u_def by (rule round_double_error_unit)
  have "0 \<le> q" unfolding q_def using assms by simp
  with q e1 u have "\<bar>1 - round_double q\<bar> \<le> 2"
    by linarith
  then have "\<bar>round_double (1 - round_double q) - (1 - round_double q)\<bar> \<le> 1 / 2 ^ 52"
    by (rule round_double_error_two)
  then have e2: "\<bar>round_double (1 - round_double q) - (1 - round_double q)\<bar> \<le> 2 * u"
    using u(3) by simp
  have "\<bar>round_double (1 - round_double q) - (1 - q)\<bar> \<le> 3 * u"
    using e1 e2 by linarith
  also have "3 * u = 3 / 2 ^ 53"
    by (simp add: u_def)
  finally show ?thesis
    by (simp add: probability_of_scoring_float_def probability_of_scoring_def q_def)
qed

subsection \<open>Rounding near one\<close>

lemma floor_log2_unique:
  assumes "2 powi e \<le> x" "x < 2 powi (e + 1)"
  shows "floor_log2 x = e"
proof -
  have pos: "0 < x"
    using assms(1) zero_less_power_int [of "2::rat" e] by linarith
  note b = floor_log2_bounds [OF pos]
  have "\<not> floor_log2 x < e"
  proof
    assume "floor_log2 x < e"
    then have "(2::rat) powi (floor_log2 x + 1) \<le> 2 powi e"
      by (intro power_int_increasing) simp_all
    with b(2) assms(1) show False by linarith
  qed
  moreover have "\<not> e < floor_log2 x"
  proof
    assume "e < floor_log2 x"
    then have "(2::rat) powi (e + 1) \<le> 2 powi (floor_log2 x)"
      by (intro power_int_increasing) simp_all
    with b(1) assms(2) show False by linarith
  qed
  ultimately show ?thesis by linarith
qed

lemma round_double_nonnegative:
  assumes "0 \<le> x"
  shows "0 \<le> round_double x"
  using round_double_within [of x] assms by linarith

lemma round_double_at_most_twice:
  assumes "0 \<le> x"
  shows "round_double x \<le> 2 * x"
  using round_double_within [of x] assms by linarith

lemma round_half_even_near:
  assumes "\<bar>q - of_int m\<bar> < 1 / 2"
  shows "round_half_even q = m"
proof (cases "of_int m \<le> q")
  case True
  with assms have "\<lfloor>q\<rfloor> = m" by (simp add: floor_eq_iff)
  with assms True show ?thesis by (simp add: round_half_even_def)
next
  case False
  with assms have "\<lfloor>q\<rfloor> = m - 1" by (simp add: floor_eq_iff)
  with assms False show ?thesis by (simp add: round_half_even_def)
qed

lemma round_double_just_above_one:
  assumes "0 \<le> y" "y < 1 / 2 ^ 53"
  shows "round_double (1 + y) = 1"
proof -
  have "(2::rat) powi 0 \<le> 1 + y" using assms by simp
  moreover have "1 + y < 2 powi (0 + 1)" using assms by simp
  ultimately have e: "floor_log2 (1 + y) = 0"
    by (rule floor_log2_unique)
  have u: "double_ulp (1 + y) = 1 / 2 ^ 52"
    using assms e by (simp add: double_ulp_def double_min_exponent_def power_int_minus field_simps)
  have "\<bar>(1 + y) / double_ulp (1 + y) - of_int (2 ^ 52)\<bar> < 1 / 2"
    using assms unfolding u by (simp add: field_simps)
  then have "round_half_even ((1 + y) / double_ulp (1 + y)) = 2 ^ 52"
    by (rule round_half_even_near)
  then show ?thesis
    using assms by (simp add: round_double_unfold u)
qed

lemma round_double_just_below_one:
  assumes "0 \<le> t" "t < 1 / 2 ^ 54"
  shows "round_double (1 - t) = 1"
proof (cases "t = 0")
  case True
  then show ?thesis
    using round_double_just_above_one [of 0] by simp
next
  case False
  have "(2::rat) powi (- 1) \<le> 1 - t" using assms by (simp add: power_int_minus field_simps)
  moreover have "1 - t < 2 powi (- 1 + 1)" using assms False by simp
  ultimately have e: "floor_log2 (1 - t) = - 1"
    by (rule floor_log2_unique)
  have pos: "0 < 1 - t" using assms by simp
  have u: "double_ulp (1 - t) = 1 / 2 ^ 53"
    using pos e by (simp add: double_ulp_def double_min_exponent_def power_int_minus field_simps)
  have "\<bar>(1 - t) / double_ulp (1 - t) - of_int (2 ^ 53)\<bar> < 1 / 2"
    using assms unfolding u by (simp add: field_simps)
  then have "round_half_even ((1 - t) / double_ulp (1 - t)) = 2 ^ 53"
    by (rule round_half_even_near)
  then show ?thesis
    using pos by (simp add: round_double_unfold u)
qed

subsection \<open>The doubles returned for the scores of a turn add up to one within the rounding\<close>

text \<open>
  Up to 340 dice every count that is not zero gives a normal double, so each probability
  is off by at most \<open>2 ^ -53\<close> of itself; with more dice the probabilities of all scores
  above 1 add up to less than \<open>2 ^ -60\<close>, and rounding never moves a number by more than
  its size.
\<close>

lemma scoring_nonnegative:
  assumes "2 \<le> s" "k \<noteq> 1"
  shows "0 \<le> probability_of_scoring k n s"
  using assms by (simp add: probability_of_scoring_def ways_nonnegative)

lemma scoring_rest_total:
  assumes "1 \<le> n" "2 \<le> s"
  shows "(\<Sum>k = 2..s * int n. probability_of_scoring k n s) = ((of_int s - 1) / of_int s) ^ n"
proof -
  have "probability_of_scoring 1 n s = 1 - ((of_int s - 1) / of_int s) ^ n"
    by (simp add: probability_of_scoring_def power_divide)
  with scoring_total [OF assms] show ?thesis by simp
qed

lemma pig_out_ratio_bound:
  assumes "s = 4 \<or> s = 6"
  shows "((of_int s - 1) / of_int s :: rat) ^ n \<le> (5 / 6) ^ n"
  using assms by (intro power_mono) auto

lemma scoring_float_relative_error:
  assumes "2 \<le> s" "s \<le> 8" "n \<le> 340" "k \<noteq> 1"
  shows "\<bar>probability_of_scoring_float k n s - probability_of_scoring k n s\<bar>
         \<le> probability_of_scoring k n s / 2 ^ 53"
proof (cases "number_of_ways_to_score k n s = 0")
  case True
  with assms(4) show ?thesis
    by (simp add: probability_of_scoring_float_def probability_of_scoring_def round_double_def)
next
  case False
  define x :: rat where "x = of_int (number_of_ways_to_score k n s) / of_int (s ^ n)"
  have w: "1 \<le> number_of_ways_to_score k n s"
    using False ways_nonnegative [of k n s] by linarith
  have "s ^ n \<le> 8 ^ n"
    using assms by (intro power_mono) simp_all
  also have "(8::int) ^ n = 2 ^ (3 * n)"
    by (simp add: power_mult)
  also have "\<dots> \<le> 2 ^ 1022"
    using assms(3) by (intro power_increasing) simp_all
  finally have d: "s ^ n \<le> 2 ^ 1022" .
  have dpos: "0 < s ^ n" using assms by simp
  have "(1::rat) / 2 ^ 1022 \<le> 1 / of_int (s ^ n)"
  proof -
    have "(of_int (s ^ n) :: rat) \<le> of_int (2 ^ 1022)"
      using d by (simp only: of_int_le_iff)
    moreover have "(0::rat) < of_int (s ^ n)"
      using dpos by (simp only: of_int_0_less_iff)
    ultimately show ?thesis
      by (intro divide_left_mono) simp_all
  qed
  also have "\<dots> \<le> x"
  proof -
    have "(1::rat) \<le> of_int (number_of_ways_to_score k n s)"
      using w by (simp only: of_int_1_le_iff)
    moreover have "(0::rat) < of_int (s ^ n)"
      using dpos by (simp only: of_int_0_less_iff)
    ultimately show ?thesis
      unfolding x_def by (intro divide_right_mono) simp_all
  qed
  finally have "2 powi double_min_exponent \<le> x"
    by (simp add: double_min_exponent_def power_int_minus_divide)
  moreover from this have "0 \<le> x"
    using zero_less_power_int [of "2::rat" double_min_exponent] by linarith
  ultimately have "max \<bar>x\<bar> (2 powi double_min_exponent) = x"
    by (simp add: max_def)
  with round_double_error [of x] have "\<bar>round_double x - x\<bar> \<le> x / 2 ^ 53"
    by simp
  with assms(4) show ?thesis
    by (simp add: probability_of_scoring_float_def probability_of_scoring_def x_def)
qed

lemma scoring_float_absolute_error:
  assumes "2 \<le> s" "k \<noteq> 1"
  shows "\<bar>probability_of_scoring_float k n s - probability_of_scoring k n s\<bar>
         \<le> probability_of_scoring k n s"
proof -
  have "\<bar>round_double (probability_of_scoring k n s) - probability_of_scoring k n s\<bar>
        \<le> \<bar>probability_of_scoring k n s\<bar>"
    by (rule round_double_within)
  with assms scoring_nonnegative [OF assms, of n] show ?thesis
    by (simp add: probability_of_scoring_float_def probability_of_scoring_def)
qed

lemma small_power: "((5::rat) / 6) ^ 340 \<le> 1 / 2 ^ 60"
proof -
  have "((5::rat) / 6) ^ 340 = ((5 / 6) ^ 4) ^ 85"
    by (simp only: power_mult [symmetric]) simp
  also have "\<dots> \<le> (1 / 2) ^ 85"
    by (intro power_mono) (simp_all add: power_divide)
  also have "\<dots> \<le> (1 / 2) ^ 60"
    by (intro power_decreasing) simp_all
  finally show ?thesis by (simp add: power_divide)
qed

lemma many_dice_ratio:
  assumes "340 \<le> n" "s = 4 \<or> s = 6"
  shows "((of_int s - 1) / of_int s :: rat) ^ n \<le> 1 / 2 ^ 60"
proof -
  have "((of_int s - 1) / of_int s :: rat) ^ n \<le> (5 / 6) ^ n"
    using assms(2) by (rule pig_out_ratio_bound)
  also have "\<dots> \<le> (5 / 6) ^ 340"
    using assms(1) by (intro power_decreasing) simp_all
  also note small_power
  finally show ?thesis .
qed

lemma scoring_float_rest_error:
  assumes "1 \<le> n" "s = 4 \<or> s = 6"
  shows "\<bar>(\<Sum>k = 2..s * int n. probability_of_scoring_float k n s)
          - (\<Sum>k = 2..s * int n. probability_of_scoring k n s)\<bar> \<le> 1 / 2 ^ 53"
proof -
  have s: "2 \<le> s" "s \<le> 8" using assms(2) by auto
  let ?K = "{2..s * int n}"
  have "\<bar>(\<Sum>k\<in>?K. probability_of_scoring_float k n s) - (\<Sum>k\<in>?K. probability_of_scoring k n s)\<bar>
        = \<bar>\<Sum>k\<in>?K. (probability_of_scoring_float k n s - probability_of_scoring k n s)\<bar>"
    by (simp add: sum_subtractf)
  also have "\<dots> \<le> (\<Sum>k\<in>?K. \<bar>probability_of_scoring_float k n s - probability_of_scoring k n s\<bar>)"
    by (rule sum_abs)
  finally have split: "\<bar>(\<Sum>k\<in>?K. probability_of_scoring_float k n s)
      - (\<Sum>k\<in>?K. probability_of_scoring k n s)\<bar>
      \<le> (\<Sum>k\<in>?K. \<bar>probability_of_scoring_float k n s - probability_of_scoring k n s\<bar>)" .
  have total: "(\<Sum>k\<in>?K. probability_of_scoring k n s) = ((of_int s - 1) / of_int s) ^ n"
    using assms(1) s(1) by (rule scoring_rest_total)
  show ?thesis
  proof (cases "n \<le> 340")
    case True
    have "(\<Sum>k\<in>?K. \<bar>probability_of_scoring_float k n s - probability_of_scoring k n s\<bar>)
          \<le> (\<Sum>k\<in>?K. probability_of_scoring k n s / 2 ^ 53)"
      using s True by (intro sum_mono scoring_float_relative_error) auto
    also have "\<dots> = ((of_int s - 1) / of_int s) ^ n / 2 ^ 53"
      by (simp add: sum_divide_distrib [symmetric] total)
    also have "\<dots> \<le> 1 / 2 ^ 53"
    proof -
      have "((of_int s - 1) / of_int s :: rat) ^ n \<le> 1"
        using s by (intro power_le_one) simp_all
      then show ?thesis by (intro divide_right_mono) simp_all
    qed
    finally show ?thesis using split by linarith
  next
    case False
    have "(\<Sum>k\<in>?K. \<bar>probability_of_scoring_float k n s - probability_of_scoring k n s\<bar>)
          \<le> (\<Sum>k\<in>?K. probability_of_scoring k n s)"
      using s by (intro sum_mono scoring_float_absolute_error) auto
    also have "\<dots> \<le> 1 / 2 ^ 60"
      unfolding total using False assms(2) by (intro many_dice_ratio) simp_all
    also have "(1::rat) / 2 ^ 60 \<le> 1 / 2 ^ 53"
      by simp
    finally show ?thesis using split by linarith
  qed
qed

lemma scoring_float_total:
  assumes "1 \<le> n" "s = 4 \<or> s = 6"
  shows "\<bar>probability_of_scoring_float 1 n s
          + (\<Sum>k = 2..s * int n. probability_of_scoring_float k n s) - 1\<bar> \<le> 1 / 2 ^ 51"
proof -
  have s: "2 \<le> s" using assms(2) by auto
  have "\<bar>probability_of_scoring_float 1 n s - probability_of_scoring 1 n s\<bar> \<le> 3 / 2 ^ 53"
    using s by (rule pig_out_float_error)
  moreover note scoring_float_rest_error [OF assms]
  moreover note scoring_total [OF assms(1) s]
  moreover have "(3::rat) / 2 ^ 53 + 1 / 2 ^ 53 = 1 / 2 ^ 51"
    by simp
  ultimately show ?thesis by linarith
qed

subsection \<open>The error of the accumulation in doubles\<close>

text \<open>
  Each pass of the loop rounds a product and a sum: with terms between 0 and 2 and a sum
  that stays below 3 it adds an error of at most \<open>3 / 2 ^ 52\<close>. When every term is below
  \<open>2 ^ -54\<close> an accumulator that holds 1 keeps the value 1.
\<close>

lemma interval_head:
  fixes i b :: int
  assumes "i \<le> b"
  shows "(\<Sum>k = i..b. f k) = f i + (\<Sum>k = i + 1..b. f k :: rat)"
proof -
  have "{i..b} = insert i {i + 1..b}" using assms by auto
  then show ?thesis by simp
qed

lemma win_loop_float_error:
  assumes "\<And>k. i \<le> k \<Longrightarrow> k \<le> b \<Longrightarrow> 0 \<le> ps k * pe k \<and> ps k * pe k \<le> 2"
    and "\<bar>w\<bar> + (\<Sum>k = i..b. ps k * pe k) + of_nat (nat (b + 1 - i)) * (3 / 2 ^ 52) \<le> 3"
  shows "\<bar>win_loop_float ps pe b i w - (w + (\<Sum>k = i..b. ps k * pe k))\<bar>
         \<le> of_nat (nat (b + 1 - i)) * (3 / 2 ^ 52)"
  using assms
proof (induction ps pe b i w rule: win_loop_float.induct)
  case (1 ps pe b i w)
  show ?case
  proof (cases "i \<le> b")
    case False
    then show ?thesis
      by (simp add: win_loop_float.simps [of ps pe b i])
  next
    case True
    define t where "t = ps i * pe i"
    define rest where "rest = (\<Sum>k = i + 1..b. ps k * pe k)"
    define m where "m = nat (b + 1 - (i + 1))"
    define u :: rat where "u = 1 / 2 ^ 52"
    define eps :: rat where "eps = 3 * u"
    define w' where "w' = round_double (w + round_double t)"
    have u: "0 < u" "u \<le> 1"
      by (simp_all add: u_def)
    have eps_eq: "eps = 3 / 2 ^ 52"
      by (simp add: eps_def u_def)
    have count: "nat (b + 1 - i) = Suc m"
      using True by (simp add: m_def)
    have head: "(\<Sum>k = i..b. ps k * pe k) = t + rest"
      unfolding t_def rest_def using True by (rule interval_head)
    have t: "0 \<le> t" "t \<le> 2"
      using "1.prems"(1) [of i] True by (simp_all add: t_def)
    have rest: "0 \<le> rest"
      unfolding rest_def using "1.prems"(1) by (intro sum_nonneg) simp
    have room: "\<bar>w\<bar> + (t + rest) + of_nat (Suc m) * eps \<le> 3"
      using "1.prems"(2) unfolding head count eps_eq .
    have eps_pos: "0 < eps"
      using u(1) by (simp add: eps_def)
    have m_eps: "0 \<le> of_nat m * eps"
      using eps_pos by simp
    have suc: "of_nat (Suc m) * eps = of_nat m * eps + eps"
      by (simp add: algebra_simps)
    have room': "\<bar>w\<bar> + (t + rest) + (of_nat m * eps + eps) \<le> 3"
      using room by (simp only: suc)
    have "\<bar>round_double t - t\<bar> \<le> 1 / 2 ^ 52"
      using t by (intro round_double_error_two) simp
    then have e1: "\<bar>round_double t - t\<bar> \<le> u"
      by (simp add: u_def)
    have "\<bar>w + round_double t\<bar> \<le> \<bar>w\<bar> + t + u"
      using e1 t by linarith
    also have "\<dots> \<le> 4"
      using room' rest m_eps eps_pos u by linarith
    finally have "\<bar>w + round_double t\<bar> \<le> 2 powi 2"
      by simp
    then have "\<bar>w' - (w + round_double t)\<bar> \<le> 2 powi 2 / 2 ^ 53"
      unfolding w'_def by (rule round_double_error_below) (simp add: double_min_exponent_def)
    then have e2: "\<bar>w' - (w + round_double t)\<bar> \<le> 2 * u"
      by (simp add: u_def)
    have step: "\<bar>w' - (w + t)\<bar> \<le> eps"
      using e1 e2 unfolding eps_def by linarith
    have "\<bar>win_loop_float ps pe b (i + 1) w' - (w' + (\<Sum>k = i + 1..b. ps k * pe k))\<bar>
          \<le> of_nat (nat (b + 1 - (i + 1))) * (3 / 2 ^ 52)"
    proof (rule "1.IH" [OF True, folded t_def, folded w'_def])
      show "0 \<le> ps k * pe k \<and> ps k * pe k \<le> 2" if "i + 1 \<le> k" "k \<le> b" for k
        using "1.prems"(1) [of k] that by simp
      have "\<bar>w'\<bar> \<le> \<bar>w\<bar> + t + eps"
        using step t by linarith
      then show "\<bar>w'\<bar> + (\<Sum>k = i + 1..b. ps k * pe k)
          + of_nat (nat (b + 1 - (i + 1))) * (3 / 2 ^ 52) \<le> 3"
        using room' unfolding rest_def [symmetric] m_def [symmetric] eps_eq [symmetric]
        by linarith
    qed
    then have ih: "\<bar>win_loop_float ps pe b (i + 1) w' - (w' + rest)\<bar> \<le> of_nat m * eps"
      unfolding rest_def m_def eps_eq .
    have unfold: "win_loop_float ps pe b i w = win_loop_float ps pe b (i + 1) w'"
      using True by (simp add: win_loop_float.simps [of ps pe b i] w'_def t_def)
    have "\<bar>win_loop_float ps pe b i w - (w + (t + rest))\<bar> \<le> of_nat m * eps + eps"
      unfolding unfold using ih step by linarith
    then have "\<bar>win_loop_float ps pe b i w - (w + (t + rest))\<bar> \<le> of_nat (Suc m) * eps"
      by (simp only: suc)
    then show ?thesis
      unfolding head count eps_eq .
  qed
qed

lemma win_loop_float_stays_one:
  assumes "\<And>k. i \<le> k \<Longrightarrow> k \<le> b \<Longrightarrow> 0 \<le> ps k * pe k \<and> ps k * pe k < 1 / 2 ^ 54"
  shows "win_loop_float ps pe b i 1 = 1"
  using assms
proof (induction "nat (b + 1 - i)" arbitrary: i)
  case 0
  then have "\<not> i \<le> b" by simp
  then show ?case by (simp add: win_loop_float.simps [of ps pe b i])
next
  case (Suc m)
  then have le: "i \<le> b" by simp
  have t: "0 \<le> ps i * pe i" "ps i * pe i < 1 / 2 ^ 54"
    using Suc.prems [of i] le by simp_all
  have "round_double (ps i * pe i) \<le> 2 * (ps i * pe i)"
    using t(1) by (rule round_double_at_most_twice)
  with t(2) have "round_double (ps i * pe i) < 1 / 2 ^ 53"
    by simp
  moreover have "0 \<le> round_double (ps i * pe i)"
    using t(1) by (rule round_double_nonnegative)
  ultimately have one: "round_double (1 + round_double (ps i * pe i)) = 1"
    by (intro round_double_just_above_one)
  have "win_loop_float ps pe b (i + 1) 1 = 1"
  proof (rule Suc.hyps(1))
    show "m = nat (b + 1 - (i + 1))" using Suc.hyps(2) by simp
    show "0 \<le> ps k * pe k \<and> ps k * pe k < 1 / 2 ^ 54" if "i + 1 \<le> k" "k \<le> b" for k
      using Suc.prems [of k] that by simp
  qed
  then show ?case
    using le one by (simp add: win_loop_float.simps [of ps pe b i])
qed

subsection \<open>The probabilities of a turn accumulated in doubles\<close>

text \<open>
  The loop of \<^verbatim>\<open>probability_of_winning_by_rolling_n\<close> with every state value 1 adds the
  doubles returned for the scores from 1 to \<open>s * n\<close>. Up to 340 dice these are at most 2040
  additions; with more dice the first term is 1 and every later one is too small to change
  the accumulator.
\<close>

lemma pig_out_quotient_bound:
  assumes "1 \<le> n" "s = 4 \<or> s = 6"
  shows "0 \<le> (of_int ((s - 1) ^ n) :: rat) / of_int (s ^ n)"
    and "(of_int ((s - 1) ^ n) :: rat) / of_int (s ^ n) \<le> 5 / 6"
proof -
  have eq: "(of_int ((s - 1) ^ n) :: rat) / of_int (s ^ n) = ((of_int s - 1) / of_int s) ^ n"
    by (simp add: power_divide)
  show "0 \<le> (of_int ((s - 1) ^ n) :: rat) / of_int (s ^ n)"
    using assms(2) by auto
  have "((of_int s - 1) / of_int s :: rat) ^ n \<le> (5 / 6) ^ n"
    using assms(2) by (rule pig_out_ratio_bound)
  also have "\<dots> \<le> (5 / 6) ^ 1"
    using assms(1) by (intro power_decreasing) simp_all
  finally show "(of_int ((s - 1) ^ n) :: rat) / of_int (s ^ n) \<le> 5 / 6"
    unfolding eq by simp
qed

lemma scoring_float_range:
  assumes "1 \<le> n" "s = 4 \<or> s = 6"
  shows "0 \<le> probability_of_scoring_float k n s \<and> probability_of_scoring_float k n s \<le> 2"
proof (cases "k = 1")
  case False
  have s: "2 \<le> s" using assms(2) by auto
  have x: "0 \<le> probability_of_scoring k n s"
    using s False by (rule scoring_nonnegative)
  have "probability_of_scoring k n s \<le> (\<Sum>j = 2..s * int n. probability_of_scoring j n s)
        \<or> probability_of_scoring k n s = 0"
  proof (cases "k \<in> {2..s * int n}")
    case True
    then have "probability_of_scoring k n s \<le> (\<Sum>j = 2..s * int n. probability_of_scoring j n s)"
      using s by (intro member_le_sum) (auto intro: scoring_nonnegative)
    then show ?thesis ..
  next
    case out: False
    then have "\<not> (2 * int n \<le> k \<and> k \<le> s * int n)"
      using assms(1) by auto
    then have "number_of_ways_to_score k n s = 0"
      using ways_support [of k n s] by blast
    then show ?thesis using False by (simp add: probability_of_scoring_def)
  qed
  moreover have "(\<Sum>j = 2..s * int n. probability_of_scoring j n s) \<le> 1"
  proof -
    have "(\<Sum>j = 2..s * int n. probability_of_scoring j n s) = ((of_int s - 1) / of_int s) ^ n"
      using assms(1) s by (rule scoring_rest_total)
    also have "\<dots> \<le> 1"
      using s by (intro power_le_one) simp_all
    finally show ?thesis .
  qed
  ultimately have "probability_of_scoring k n s \<le> 1"
    by auto
  with x round_double_nonnegative [of "probability_of_scoring k n s"]
    round_double_at_most_twice [of "probability_of_scoring k n s"] False
  show ?thesis
    by (simp add: probability_of_scoring_float_def probability_of_scoring_def)
next
  case True
  define q :: rat where "q = of_int ((s - 1) ^ n) / of_int (s ^ n)"
  have q: "0 \<le> q" "q \<le> 5 / 6"
    unfolding q_def using pig_out_quotient_bound [OF assms] by simp_all
  then have "\<bar>round_double q - q\<bar> \<le> 1 / 2 ^ 53"
    by (intro round_double_error_unit) simp
  moreover have "(1::rat) / 2 ^ 53 \<le> 1 / 6"
    by simp
  ultimately have "0 \<le> 1 - round_double q" "1 - round_double q \<le> 1"
    using q round_double_nonnegative [of q] by linarith+
  with round_double_nonnegative [of "1 - round_double q"]
    round_double_at_most_twice [of "1 - round_double q"] True
  show ?thesis
    by (simp add: probability_of_scoring_float_def q_def)
qed

lemma float_accumulation_few_dice:
  assumes "1 \<le> n" "n \<le> 340" "s = 4 \<or> s = 6"
  shows "\<bar>win_loop_float (\<lambda>k. probability_of_scoring_float k n s) (\<lambda>k. 1) (s * int n) 1 0 - 1\<bar>
         \<le> 1 / 2 ^ 38"
proof -
  let ?p = "\<lambda>k. probability_of_scoring_float k n s"
  define count where "count = nat (s * int n + 1 - 1)"
  define eps :: rat where "eps = 3 / 2 ^ 52"
  have s: "2 \<le> s" "s \<le> 6" using assms(3) by auto
  have "s * int n \<le> 6 * 340"
    using s assms(2) by (intro mult_mono) simp_all
  then have "count \<le> 2040"
    by (simp add: count_def)
  then have "(of_nat count :: rat) \<le> 2040"
    by (simp only: of_nat_le_iff [symmetric, where ?'a = rat] of_nat_numeral)
  then have "of_nat count * eps \<le> 2040 * eps"
    by (intro mult_right_mono) (simp_all add: eps_def)
  also have "\<dots> \<le> 1 / 2 ^ 39"
    by (simp add: eps_def)
  finally have budget: "of_nat count * eps \<le> 1 / 2 ^ 39" .
  have "1 \<le> s * int n"
    using s assms(1) mult_mono [of 1 s 1 "int n"] by simp
  then have "(\<Sum>k = 1..s * int n. ?p k) = ?p 1 + (\<Sum>k = 1 + 1..s * int n. ?p k)"
    by (rule interval_head)
  then have split: "(\<Sum>k = 1..s * int n. ?p k * 1) = ?p 1 + (\<Sum>k = 2..s * int n. ?p k)"
    by simp
  have total: "\<bar>?p 1 + (\<Sum>k = 2..s * int n. ?p k) - 1\<bar> \<le> 1 / 2 ^ 51"
    using assms(1,3) by (rule scoring_float_total)
  have "\<bar>win_loop_float ?p (\<lambda>k. 1) (s * int n) 1 0 - (0 + (\<Sum>k = 1..s * int n. ?p k * 1))\<bar>
        \<le> of_nat (nat (s * int n + 1 - 1)) * (3 / 2 ^ 52)"
  proof (rule win_loop_float_error)
    show "0 \<le> ?p k * 1 \<and> ?p k * 1 \<le> 2" for k
      using scoring_float_range [OF assms(1,3), of k] by simp
    have "(1::rat) / 2 ^ 51 \<le> 1" "(1::rat) / 2 ^ 39 \<le> 1"
      by simp_all
    with total budget
    show "\<bar>0\<bar> + (\<Sum>k = 1..s * int n. ?p k * 1)
          + of_nat (nat (s * int n + 1 - 1)) * (3 / 2 ^ 52) \<le> 3"
      unfolding split count_def [symmetric] eps_def [symmetric] by linarith
  qed
  then have "\<bar>win_loop_float ?p (\<lambda>k. 1) (s * int n) 1 0 - (?p 1 + (\<Sum>k = 2..s * int n. ?p k))\<bar>
        \<le> 1 / 2 ^ 39"
    using budget unfolding split count_def [symmetric] eps_def [symmetric] by linarith
  moreover have "(1::rat) / 2 ^ 39 + 1 / 2 ^ 51 \<le> 1 / 2 ^ 38"
    by simp
  ultimately show ?thesis
    using total by linarith
qed

lemma float_accumulation_many_dice:
  assumes "340 < n" "s = 4 \<or> s = 6"
  shows "win_loop_float (\<lambda>k. probability_of_scoring_float k n s) (\<lambda>k. 1) (s * int n) 1 0 = 1"
proof -
  let ?p = "\<lambda>k. probability_of_scoring_float k n s"
  have s: "2 \<le> s" using assms(2) by auto
  have n: "1 \<le> n" "340 \<le> n" using assms(1) by simp_all
  have tiny: "((of_int s - 1) / of_int s :: rat) ^ n \<le> 1 / 2 ^ 60"
    using n(2) assms(2) by (rule many_dice_ratio)
  have first: "?p 1 = 1"
  proof -
    define q :: rat where "q = of_int ((s - 1) ^ n) / of_int (s ^ n)"
    have q: "0 \<le> q" "q \<le> 1 / 2 ^ 60"
      unfolding q_def using tiny pig_out_quotient_bound(1) [OF n(1) assms(2)]
      by (simp_all add: power_divide)
    have "round_double q \<le> 2 * q"
      using q(1) by (rule round_double_at_most_twice)
    with q(2) have "round_double q < 1 / 2 ^ 54"
      by simp
    moreover have "0 \<le> round_double q"
      using q(1) by (rule round_double_nonnegative)
    ultimately have "round_double (1 - round_double q) = 1"
      by (intro round_double_just_below_one)
    then show ?thesis
      by (simp add: probability_of_scoring_float_def q_def)
  qed
  have one: "round_double 1 = 1"
    using round_double_just_above_one [of 0] by simp
  have rest: "0 \<le> ?p k * 1 \<and> ?p k * 1 < 1 / 2 ^ 54" if "2 \<le> k" "k \<le> s * int n" for k
  proof -
    have k: "k \<noteq> 1" using that by simp
    have x: "0 \<le> probability_of_scoring k n s"
      using s k by (rule scoring_nonnegative)
    have "probability_of_scoring k n s \<le> (\<Sum>j = 2..s * int n. probability_of_scoring j n s)"
      using that s by (intro member_le_sum) (auto intro: scoring_nonnegative)
    also have "\<dots> = ((of_int s - 1) / of_int s) ^ n"
      using n(1) s by (rule scoring_rest_total)
    also note tiny
    finally have small: "probability_of_scoring k n s \<le> 1 / 2 ^ 60" .
    have "round_double (probability_of_scoring k n s) \<le> 2 * probability_of_scoring k n s"
      using x by (rule round_double_at_most_twice)
    with small have "round_double (probability_of_scoring k n s) < 1 / 2 ^ 54"
      by simp
    moreover have "0 \<le> round_double (probability_of_scoring k n s)"
      using x by (rule round_double_nonnegative)
    ultimately show ?thesis
      using k by (simp add: probability_of_scoring_float_def probability_of_scoring_def)
  qed
  have "1 \<le> s * int n"
    using s n(1) mult_mono [of 1 s 1 "int n"] by simp
  then have "win_loop_float ?p (\<lambda>k. 1) (s * int n) 1 0
             = win_loop_float ?p (\<lambda>k. 1) (s * int n) (1 + 1) 1"
    by (simp add: win_loop_float.simps [of ?p _ "s * int n" 1] first one)
  also have "\<dots> = 1"
    by (rule win_loop_float_stays_one) (use rest in simp)
  finally show ?thesis .
qed

lemma float_accumulation_total:
  assumes "1 \<le> n" "s = 4 \<or> s = 6"
  shows "\<bar>win_loop_float (\<lambda>k. probability_of_scoring_float k n s) (\<lambda>k. 1) (s * int n) 1 0 - 1\<bar>
         \<le> 1 / 2 ^ 38"
proof (cases "n \<le> 340")
  case True
  with assms show ?thesis by (intro float_accumulation_few_dice)
next
  case False
  then have "340 < n" by simp
  then show ?thesis
    using assms(2) by (simp add: float_accumulation_many_dice)
qed

section \<open>The claims\<close>

subsection \<open>The counting function\<close>

text \<open>
  Claim C6. For every number of dice \<open>n\<close>, number of sides \<open>s\<close> and integer \<open>k\<close>,
  \<^verbatim>\<open>number_of_ways_to_score(k, n, s)\<close> is the number of ordered sequences of \<open>n\<close> faces, each
  from \<open>{2, ..., s}\<close>, whose sum is \<open>k\<close>. With no dice it returns 1 for \<open>k = 0\<close> and 0
  otherwise; with a die more it is the sum of the counts for \<open>k - d\<close> over the faces \<open>d\<close>
  from 2 to \<open>s\<close>; a negative \<open>k\<close> gives 0. There are 4 ways to score 7 with two six-sided
  dice, so the probability of scoring 7 with them is 1/9.
\<close>

theorem number_of_ways_to_score_counts_sequences:
  "number_of_ways_to_score k n s = int (card (face_sequences k n s))
   \<and> number_of_ways_to_score k 0 s = (if k = 0 then 1 else 0)
   \<and> number_of_ways_to_score k (Suc n) s = (\<Sum>d = 2..s. number_of_ways_to_score (k - d) n s)
   \<and> (k < 0 \<longrightarrow> number_of_ways_to_score k n s = 0)
   \<and> number_of_ways_to_score 7 2 6 = 4
   \<and> probability_of_scoring 7 2 6 = 1 / 9"
proof -
  have "number_of_ways_to_score 7 2 6 = 4"
    by code_simp
  moreover have "probability_of_scoring 7 2 6 = 1 / 9"
    by code_simp
  ultimately show ?thesis
    using ways_card [of k n s] ways_zero [of k s] ways_Suc [of k n s] ways_negative [of k n s]
    by blast
qed

theorem number_of_ways_to_score_counts_sequences_witness:
  "number_of_ways_to_score (- 3) 2 6 = 0
   \<and> number_of_ways_to_score (- 3) 2 6 = int (card (face_sequences (- 3) 2 6))
   \<and> number_of_ways_to_score 5 (Suc 2) 6 = (\<Sum>d = 2..6. number_of_ways_to_score (5 - d) 2 6)"
  using number_of_ways_to_score_counts_sequences [of "- 3" 2 6]
    number_of_ways_to_score_counts_sequences [of 5 2 6]
  by simp

subsection \<open>The swap before the terminal checks\<close>

text \<open>
  Claim C10. \<^verbatim>\<open>probability_of_winning_with_turn_end_scores(100, 50)\<close> is 0: the scores are
  swapped before the terminal checks, so a player who ends the turn at exactly 100 points
  against 50 holds 50 points after the swap and has lost.
\<close>

theorem swap_before_terminal_checks:
  "probability_of_winning_with_turn_end_scores 100 50 = 0"
  by (simp add: probability_of_winning_with_turn_end_scores.simps GOAL_SCORE_def)

subsection \<open>The probability of a turn score\<close>

lemma pig_out_float_one_die:
  "probability_of_scoring_float 1 1 6 = 1501199875790165 / 2 ^ 53"
  by code_simp

text \<open>
  Claim C5, as amended. For at least one die, 4 or 6 sides and any integer \<open>k\<close>,
  \<^verbatim>\<open>probability_of_scoring(k, n, s)\<close> returns the double computed for \<open>1 - ((s - 1) / s) ^ n\<close>
  when \<open>k = 1\<close> (the quotient of the two powers rounded, then the difference rounded) and the
  double nearest to \<^verbatim>\<open>number_of_ways_to_score(k, n, s)\<close> divided by \<open>s ^ n\<close> when \<open>k\<close> is at
  least 2. The first is within \<open>3 / 2 ^ 53\<close> and the second within \<open>1 / 2 ^ 53\<close> of the exact
  value. With one six-sided die the probability returned for a score of 1 is
  \<open>1501199875790165 / 2 ^ 53\<close>, that is 0.16666666666666663.
\<close>

theorem probability_of_scoring_float_cases:
  assumes "1 \<le> n" and "s = 4 \<or> s = 6"
  shows "probability_of_scoring_float 1 n s
           = round_double (1 - round_double (((of_int s - 1) / of_int s) ^ n))
    \<and> \<bar>probability_of_scoring_float 1 n s - (1 - ((of_int s - 1) / of_int s) ^ n)\<bar> \<le> 3 / 2 ^ 53
    \<and> (2 \<le> k \<longrightarrow>
          probability_of_scoring_float k n s
            = round_double (of_int (number_of_ways_to_score k n s) / of_int s ^ n)
          \<and> \<bar>probability_of_scoring_float k n s
               - of_int (number_of_ways_to_score k n s) / of_int s ^ n\<bar> \<le> 1 / 2 ^ 53)
    \<and> probability_of_scoring_float 1 1 6 = 1501199875790165 / 2 ^ 53"
proof -
  have s: "2 \<le> s" using assms(2) by auto
  have "probability_of_scoring_float 1 n s
           = round_double (1 - round_double (((of_int s - 1) / of_int s) ^ n))"
    by (simp add: probability_of_scoring_float_def power_divide)
  moreover have "\<bar>probability_of_scoring_float 1 n s - (1 - ((of_int s - 1) / of_int s) ^ n)\<bar>
      \<le> 3 / 2 ^ 53"
    using pig_out_float_error [OF s, of n] by (simp add: probability_of_scoring_def power_divide)
  moreover have "probability_of_scoring_float k n s
            = round_double (of_int (number_of_ways_to_score k n s) / of_int s ^ n)
          \<and> \<bar>probability_of_scoring_float k n s
               - of_int (number_of_ways_to_score k n s) / of_int s ^ n\<bar> \<le> 1 / 2 ^ 53"
    if "2 \<le> k"
    using that scoring_float_error [OF s, of k n]
    by (simp add: probability_of_scoring_float_def probability_of_scoring_def)
  ultimately show ?thesis
    using pig_out_float_one_die by blast
qed

theorem probability_of_scoring_float_cases_witness:
  "\<bar>probability_of_scoring_float 1 1 6 - (1 - ((of_int 6 - 1) / of_int 6) ^ 1)\<bar> \<le> 3 / 2 ^ 53
   \<and> \<bar>probability_of_scoring_float 3 1 6 - of_int (number_of_ways_to_score 3 1 6) / of_int 6 ^ 1\<bar>
       \<le> 1 / 2 ^ 53"
proof -
  have "(2::int) \<le> 3" by simp
  with probability_of_scoring_float_cases [OF le_refl disjI2 [OF refl], of 3]
  show ?thesis by blast
qed

text \<open>
  Claim C5 as first stated fails: the value returned for \<open>(1, 1, 6)\<close> is not 1/6, and it is
  not the double nearest to 1/6 either.
\<close>

theorem pig_out_with_one_die_not_a_sixth:
  "probability_of_scoring_float 1 1 6 \<noteq> 1 / 6
   \<and> probability_of_scoring_float 1 1 6 \<noteq> round_double (1 / 6)"
proof -
  have "round_double (1 / 6) = 6004799503160661 / 2 ^ 55"
    by code_simp
  then show ?thesis
    unfolding pig_out_float_one_die by simp
qed

text \<open>
  Claim C7. For at least one die and 4 or 6 sides the outcome distribution is normalized:
  the probability of scoring 1 plus the probabilities of the scores from 2 to \<open>s * n\<close> is
  exactly 1 in rational arithmetic, and the doubles that the code returns for these
  probabilities add up to 1 within \<open>2 ^ -51\<close>, which is less than the tolerance \<open>10 ^ -9\<close>.
\<close>

theorem outcome_distribution_normalized:
  assumes "1 \<le> n" and "s = 4 \<or> s = 6"
  shows "probability_of_scoring 1 n s + (\<Sum>k = 2..s * int n. probability_of_scoring k n s) = 1
    \<and> \<bar>probability_of_scoring_float 1 n s
         + (\<Sum>k = 2..s * int n. probability_of_scoring_float k n s) - 1\<bar> \<le> 1 / 10 ^ 9"
proof -
  have "(1::rat) / 2 ^ 51 \<le> 1 / 10 ^ 9"
    by simp
  with scoring_float_total [OF assms] scoring_total [of n s] assms show ?thesis
    by auto
qed

theorem outcome_distribution_normalized_witness:
  "probability_of_scoring 1 3 4 + (\<Sum>k = 2..4 * int 3. probability_of_scoring k 3 4) = 1
   \<and> \<bar>probability_of_scoring_float 1 3 4
        + (\<Sum>k = 2..4 * int 3. probability_of_scoring_float k 3 4) - 1\<bar> \<le> 1 / 10 ^ 9"
  using outcome_distribution_normalized [OF _ disjI1 [OF refl], of 3] by simp

subsection \<open>The engine\<close>

text \<open>
  Claim C1. \<^verbatim>\<open>probability_of_winning_with_turn_end_scores\<close> first swaps the two scores when
  one is twice the other, then returns 1 when the score is at least 100, 0 when the
  opponent's score is at least 100, and otherwise 1 minus the opponent's probability of
  winning with the opponent's best roll count. The value at (100, 0) is 1 and the value at
  (0, 100) is 0.
\<close>

theorem state_value_function:
  "probability_of_winning_with_turn_end_scores score opponent_score =
     (let (score', opponent_score') =
            (if score = 2 * opponent_score \<or> opponent_score = 2 * score
             then (opponent_score, score) else (score, opponent_score))
      in if score' \<ge> 100 then 1
         else if opponent_score' \<ge> 100 then 0
         else 1 - probability_of_winning_by_rolling_n opponent_score' score'
                    (best_num_dice_to_roll opponent_score' score'))
   \<and> probability_of_winning_with_turn_end_scores 100 0 = 1
   \<and> probability_of_winning_with_turn_end_scores 0 100 = 0"
proof -
  have swap: "(score * 2 = opponent_score \<or> opponent_score * 2 = score)
      \<longleftrightarrow> (score = 2 * opponent_score \<or> opponent_score = 2 * score)"
    by auto
  have "probability_of_winning_with_turn_end_scores 100 0 = 1"
    by (simp add: probability_of_winning_with_turn_end_scores.simps GOAL_SCORE_def)
  moreover have "probability_of_winning_with_turn_end_scores 0 100 = 0"
    by (simp add: probability_of_winning_with_turn_end_scores.simps GOAL_SCORE_def)
  moreover have "probability_of_winning_with_turn_end_scores score opponent_score =
     (let (score', opponent_score') =
            (if score = 2 * opponent_score \<or> opponent_score = 2 * score
             then (opponent_score, score) else (score, opponent_score))
      in if score' \<ge> 100 then 1
         else if opponent_score' \<ge> 100 then 0
         else 1 - probability_of_winning_by_rolling_n opponent_score' score'
                    (best_num_dice_to_roll opponent_score' score'))"
    unfolding probability_of_winning_with_turn_end_scores.simps [of score opponent_score]
      swap GOAL_SCORE_def Let_def
    by simp
  ultimately show ?thesis by blast
qed

text \<open>
  Claim C2. \<^verbatim>\<open>probability_of_winning_by_rolling_n\<close> takes the free-bacon score
  \<open>max (opponent_score mod 10) (opponent_score div 10) + 1\<close> and 4 sides when the sum of the
  scores is a multiple of 7, else 6. For \<open>n = 0\<close> it returns the state value after the
  free-bacon score; otherwise the sum, over the possible scores from 1 to \<open>sides * n\<close>, of
  the probability of the score times the state value after it.
\<close>

theorem turn_value_function:
  "probability_of_winning_by_rolling_n score opponent_score n =
     (let free_bacon_score = max (opponent_score mod 10) (opponent_score div 10) + 1;
          sides = (if (score + opponent_score) mod 7 = 0 then 4 else 6)
      in if n = 0
         then probability_of_winning_with_turn_end_scores (score + free_bacon_score) opponent_score
         else (\<Sum>possible_score = 1..sides * int n.
                 probability_of_scoring possible_score n sides
                 * probability_of_winning_with_turn_end_scores (score + possible_score) opponent_score))"
  by (simp add: probability_of_winning_by_rolling_n.simps [of score opponent_score n]
        win_loop_sum Let_def)

text \<open>
  Claim C3. \<^verbatim>\<open>best_num_dice_to_roll\<close> returns a roll count from 0 to 10. It replaces the best
  count only on a strictly greater probability: when some count has a probability above the
  initial 0, the count returned has the greatest probability and every smaller count has a
  strictly smaller one, so the smallest of the counts tied at the maximum is returned. When
  no count has a probability above 0, it returns 1.
\<close>

theorem best_num_dice_to_roll_selects:
  "best_num_dice_to_roll score opponent_score \<le> 10
   \<and> ((\<exists>n\<in>{0..10}. 0 < probability_of_winning_by_rolling_n score opponent_score n) \<longrightarrow>
        (\<forall>n\<in>{0..10}. probability_of_winning_by_rolling_n score opponent_score n
            \<le> probability_of_winning_by_rolling_n score opponent_score
                 (best_num_dice_to_roll score opponent_score))
        \<and> (\<forall>n\<in>{0..<best_num_dice_to_roll score opponent_score}.
             probability_of_winning_by_rolling_n score opponent_score n
             < probability_of_winning_by_rolling_n score opponent_score
                 (best_num_dice_to_roll score opponent_score)))
   \<and> ((\<forall>n\<in>{0..10}. probability_of_winning_by_rolling_n score opponent_score n \<le> 0) \<longrightarrow>
        best_num_dice_to_roll score opponent_score = 1)"
  using best_loop_spec [of 0 "probability_of_winning_by_rolling_n score opponent_score" 0 1]
  unfolding best_num_dice_to_roll.simps [of score opponent_score] MAX_DICE_ROLLS_def
  by (auto split: if_splits simp: not_le)

theorem best_num_dice_to_roll_selects_witness:
  "best_num_dice_to_roll 99 0 \<le> 10
   \<and> probability_of_winning_by_rolling_n 99 0 4
       \<le> probability_of_winning_by_rolling_n 99 0 (best_num_dice_to_roll 99 0)
   \<and> best_num_dice_to_roll (- 20) 99 = 1"
proof -
  have "\<exists>n\<in>{0..10}. 0 < probability_of_winning_by_rolling_n 99 0 n"
    by (rule bexI [of _ 0]) (simp_all add: winning_from_99 GOAL_SCORE_def)
  moreover have "\<forall>n\<in>{0..10}. probability_of_winning_by_rolling_n (- 20) 99 n \<le> 0"
    by (simp add: no_chance_against_99)
  ultimately show ?thesis
    using best_num_dice_to_roll_selects [of 99 0] best_num_dice_to_roll_selects [of "- 20" 99]
    by simp
qed




subsection \<open>The preconditions of a turn\<close>

text \<open>
  Claim C9, as amended. \<^verbatim>\<open>take_turn\<close> fails with an \<^verbatim>\<open>AssertionError\<close> exactly when
  \<^verbatim>\<open>num_rolls\<close> is not an integer, or is less than 0 or greater than 10, or the opponent's
  score is at least 100; exactly on the other inputs it returns a turn score.
\<close>

theorem take_turn_fails_exactly:
  "((\<exists>message. take_turn num_rolls opponent_score dice = Inl (AssertionError message))
     \<longleftrightarrow> (case num_rolls of PyOther \<Rightarrow> True
          | PyInt n \<Rightarrow> n < 0 \<or> 10 < n \<or> 100 \<le> opponent_score))
   \<and> ((\<exists>turn_score. take_turn num_rolls opponent_score dice = Inr turn_score)
     \<longleftrightarrow> (case num_rolls of PyOther \<Rightarrow> False
          | PyInt n \<Rightarrow> 0 \<le> n \<and> n \<le> 10 \<and> opponent_score < 100))"
proof (cases num_rolls)
  case PyOther
  then show ?thesis by (simp add: take_turn_def)
next
  case (PyInt n)
  show ?thesis
  proof (cases "0 < n \<and> n \<le> 10 \<and> opponent_score < 100")
    case True
    then obtain turn_score where "roll_dice (PyInt n) dice = Inr turn_score"
      using roll_dice_returns [of n dice] by blast
    with True PyInt show ?thesis by (simp add: take_turn_def)
  next
    case False
    with PyInt show ?thesis by (auto simp: take_turn_def)
  qed
qed

text \<open>
  Claim C9 as first stated fails. A negative point value is not rejected: with an
  opponent's score of -5 the free-bacon
  turn returns 6, and a dice that shows -3 gives the turn score -3.
\<close>

theorem take_turn_accepts_negative_points:
  "take_turn (PyInt 0) (- 5) (constant_dice 3) = Inr 6
   \<and> take_turn (PyInt 1) 0 (constant_dice (- 3)) = Inr (- 3)"
  by code_simp

subsection \<open>Termination of the mutual recursion\<close>

text \<open>
  Claim C4. The mutual recursion of \<^verbatim>\<open>best_num_dice_to_roll\<close>,
  \<^verbatim>\<open>probability_of_winning_by_rolling_n\<close> and \<^verbatim>\<open>probability_of_winning_with_turn_end_scores\<close>
  terminates from every state: every call of each of the three functions is accessible in
  the call relation. Every call from the turn value to the state value raises the score of
  the player who moves by at least 1 and keeps the opponent's score; the state value makes
  a recursive call only when both scores are below the goal of 100; and every recursive
  call decreases the measure of the recursion.
\<close>

theorem engine_recursion_terminates:
  "Wellfounded.accp engine_calls (Inl (score, opponent_score))
   \<and> Wellfounded.accp engine_calls (Inr (Inl (score, opponent_score, n)))
   \<and> Wellfounded.accp engine_calls (Inr (Inr (score, opponent_score)))
   \<and> (engine_calls (Inr (Inr (score', opponent_score'))) (Inr (Inl (score, opponent_score, n)))
        \<longrightarrow> score + 1 \<le> score' \<and> opponent_score' = opponent_score)
   \<and> (engine_calls callee (Inr (Inr (score, opponent_score)))
        \<longrightarrow> score < GOAL_SCORE \<and> opponent_score < GOAL_SCORE)
   \<and> (engine_calls callee caller \<longrightarrow> engine_measure callee < engine_measure caller)"
  using engine_call_accessible turn_call_gains state_call_below_goal engine_call_decreases
  by blast

theorem engine_recursion_terminates_witness:
  "Wellfounded.accp engine_calls (Inr (Inr (0, 0)))
   \<and> engine_calls (Inr (Inr (3, 0))) (Inr (Inl (0, 0, 1)))
   \<and> (0::int) + 1 \<le> 3
   \<and> engine_calls (Inl (0, 3)) (Inr (Inr (3, 0)))
   \<and> (3::int) < GOAL_SCORE \<and> (0::int) < GOAL_SCORE
   \<and> engine_measure (Inl (0, 3)) < engine_measure (Inr (Inr (3, 0)))"
  using engine_recursion_terminates [of 0 0 1 3 0 "Inl (0, 3)" "Inr (Inr (3, 0))"]
    engine_recursion_terminates [of 3 0 1 3 0 "Inl (0, 3)" "Inr (Inr (3, 0))"]
    a_turn_call a_state_call
  by simp

end
